theory Spec2Isabelle
  imports Complex_Main
begin

section \<open>Data model (src/types/index.ts)\<close>

text \<open>
  The interfaces of \<^verbatim>\<open>types/index.ts\<close> as records. Field names that several interfaces
  share (\<^verbatim>\<open>id\<close>, \<^verbatim>\<open>x\<close>, \<^verbatim>\<open>y\<close>, \<^verbatim>\<open>points\<close>, \<^verbatim>\<open>type\<close>) carry a prefix, since a
  record field is a global constant. A JavaScript number is a \<open>real\<close>: the store never
  computes with a coordinate, a power or a size, it only copies them.
\<close>

record Point =
  p_x :: real
  p_y :: real
  p_id :: string

record CoastlineData =
  points :: "Point list"
  isClosed :: bool

record Settlement =
  s_id :: string
  s_x :: real
  s_y :: real
  s_name :: string
  s_size :: real

record SettlementData =
  settlements_of :: "Settlement list"

record Road =
  r_id :: string
  startSettlementId :: string
  endSettlementId :: string
  safe :: bool

record RoadData =
  roads_of :: "Road list"

datatype TowerType =
  aquagen | aerogen | petrogen | biogen | thermogen | photogen | keraunogen | kinegen | piezogen

record Tower =
  t_id :: string
  t_x :: real
  t_y :: real
  t_type :: TowerType
  t_power :: real

record TowerData =
  towers_of :: "Tower list"

text \<open>\<^verbatim>\<open>PendingEdit.type\<close> is \<^verbatim>\<open>'add' | 'replace'\<close>; an optional field is an \<open>option\<close>.\<close>

datatype EditType = EditAdd | EditReplace

record PendingEdit =
  e_type :: EditType
  e_points :: "Point list"
  startAnchorId :: "string option"
  endAnchorId :: "string option"
  replacedPointIds :: "string list option"

datatype AnnotationMode =
  Mode_coastline | Mode_tower_position | Mode_tower_properties | Mode_settlement_position
  | Mode_settlement_properties | Mode_road_position | Mode_road_properties

datatype CoastlineSubMode = SubAdd | SubRemove | SubMove

record AppStateData =
  currentMode :: AnnotationMode
  coastlineSubMode :: CoastlineSubMode
  coastline :: CoastlineData
  towers :: TowerData
  settlements :: SettlementData
  roads :: RoadData
  pendingEdit :: "PendingEdit option"
  isBackgroundVisible :: bool
  selectedTowerType :: TowerType
  selectedTowerPower :: real
  selectedSettlementSize :: real
  selectedRoadSafe :: bool
  pendingRoadStartId :: "string option"
  selectedTowerId :: "string option"
  selectedSettlementId :: "string option"

text \<open>
  An action is the pair of \<^verbatim>\<open>type\<close> and \<^verbatim>\<open>payload\<close> that \<^verbatim>\<open>dispatch\<close> receives: one
  constructor for each case label of the switch in \<^verbatim>\<open>AppState.reduce\<close>, carrying the
  payload as that case casts it (a case that never reads its payload carries none).
  \<open>OTHER t\<close> is a type string \<open>t\<close> that is none of the case labels.
\<close>

datatype Action =
  SET_MODE AnnotationMode
  | SET_COASTLINE_SUBMODE CoastlineSubMode
  | SET_BACKGROUND_VISIBLE bool
  | ADD_POINT real real
  | CLOSE_COASTLINE
  | SET_PENDING_EDIT "PendingEdit option"
  | COMMIT_EDIT
  | CANCEL_EDIT
  | REMOVE_POINT string
  | MOVE_POINT string real real
  | LOAD_STATE AppStateData
  | UNDO
  | ADD_TOWER real real
  | REMOVE_TOWER string
  | UPDATE_TOWER Tower
  | SET_TOWER_TYPE TowerType
  | SET_TOWER_POWER real
  | ADD_SETTLEMENT real real
  | REMOVE_SETTLEMENT string
  | UPDATE_SETTLEMENT Settlement
  | SET_SETTLEMENT_SIZE real
  | ADD_ROAD string string
  | REMOVE_ROAD string
  | UPDATE_ROAD Road
  | SET_ROAD_SAFE bool
  | SET_PENDING_ROAD_START "string option"
  | SELECT_TOWER "string option"
  | SELECT_SETTLEMENT "string option"
  | OTHER string

fun actionType :: "Action \<Rightarrow> string" where
  "actionType (SET_MODE _) = ''SET_MODE''"
| "actionType (SET_COASTLINE_SUBMODE _) = ''SET_COASTLINE_SUBMODE''"
| "actionType (SET_BACKGROUND_VISIBLE _) = ''SET_BACKGROUND_VISIBLE''"
| "actionType (ADD_POINT _ _) = ''ADD_POINT''"
| "actionType CLOSE_COASTLINE = ''CLOSE_COASTLINE''"
| "actionType (SET_PENDING_EDIT _) = ''SET_PENDING_EDIT''"
| "actionType COMMIT_EDIT = ''COMMIT_EDIT''"
| "actionType CANCEL_EDIT = ''CANCEL_EDIT''"
| "actionType (REMOVE_POINT _) = ''REMOVE_POINT''"
| "actionType (MOVE_POINT _ _ _) = ''MOVE_POINT''"
| "actionType (LOAD_STATE _) = ''LOAD_STATE''"
| "actionType UNDO = ''UNDO''"
| "actionType (ADD_TOWER _ _) = ''ADD_TOWER''"
| "actionType (REMOVE_TOWER _) = ''REMOVE_TOWER''"
| "actionType (UPDATE_TOWER _) = ''UPDATE_TOWER''"
| "actionType (SET_TOWER_TYPE _) = ''SET_TOWER_TYPE''"
| "actionType (SET_TOWER_POWER _) = ''SET_TOWER_POWER''"
| "actionType (ADD_SETTLEMENT _ _) = ''ADD_SETTLEMENT''"
| "actionType (REMOVE_SETTLEMENT _) = ''REMOVE_SETTLEMENT''"
| "actionType (UPDATE_SETTLEMENT _) = ''UPDATE_SETTLEMENT''"
| "actionType (SET_SETTLEMENT_SIZE _) = ''SET_SETTLEMENT_SIZE''"
| "actionType (ADD_ROAD _ _) = ''ADD_ROAD''"
| "actionType (REMOVE_ROAD _) = ''REMOVE_ROAD''"
| "actionType (UPDATE_ROAD _) = ''UPDATE_ROAD''"
| "actionType (SET_ROAD_SAFE _) = ''SET_ROAD_SAFE''"
| "actionType (SET_PENDING_ROAD_START _) = ''SET_PENDING_ROAD_START''"
| "actionType (SELECT_TOWER _) = ''SELECT_TOWER''"
| "actionType (SELECT_SETTLEMENT _) = ''SELECT_SETTLEMENT''"
| "actionType (OTHER t) = t"

record StateChangeEvent =
  ev_action :: Action
  previousState :: AppStateData
  newState :: AppStateData

section \<open>The reducer (src/state/AppState.ts)\<close>

text \<open>
  \<^verbatim>\<open>Array.prototype.findIndex\<close>: the index of the first element that satisfies the
  predicate; the source's \<^verbatim>\<open>-1\<close> for no such element is \<open>None\<close>.
\<close>

fun findIndex :: "('a \<Rightarrow> bool) \<Rightarrow> 'a list \<Rightarrow> nat option" where
  "findIndex P [] = None"
| "findIndex P (v # vs) = (if P v then Some 0 else map_option Suc (findIndex P vs))"

text \<open>
  JavaScript truthiness of an optional string, as the guard
  \<^verbatim>\<open>state.pendingEdit.startAnchorId && state.pendingEdit.endAnchorId\<close> reads it:
  \<^verbatim>\<open>undefined\<close> and the empty string are falsy.
\<close>

fun truthy :: "string option \<Rightarrow> bool" where
  "truthy None = False"
| "truthy (Some t) = (t \<noteq> [])"

text \<open>
  The two \<^verbatim>\<open>while (i !== endIdx)\<close> loops of \<^verbatim>\<open>COMMIT_EDIT\<close>. Nothing in the loop
  bounds the number of rounds, so a walk that never meets \<^verbatim>\<open>endIdx\<close> is \<open>None\<close>.
  Indices are naturals: \<^verbatim>\<open>(i - 1 + n) % n\<close> is written \<open>(i + n - 1) mod n\<close>, the same
  number whenever \<open>n \<ge> 1\<close>, without the truncating subtraction of \<open>nat\<close>.
\<close>

partial_function (option) walkCW :: "nat \<Rightarrow> nat \<Rightarrow> nat \<Rightarrow> nat list \<Rightarrow> nat list option" where
  "walkCW n endIdx i path =
     (if i \<noteq> endIdx then walkCW n endIdx ((i + 1) mod n) (path @ [i]) else Some path)"

partial_function (option) walkCCW :: "nat \<Rightarrow> nat \<Rightarrow> nat \<Rightarrow> nat list \<Rightarrow> nat list option" where
  "walkCCW n endIdx i path =
     (if i \<noteq> endIdx then walkCCW n endIdx ((i + n - 1) mod n) (path @ [i]) else Some path)"

declare walkCW.simps [code]

declare walkCCW.simps [code]

definition pathCW :: "nat \<Rightarrow> nat \<Rightarrow> nat \<Rightarrow> nat list option" where
  "pathCW n startIdx endIdx = walkCW n endIdx ((startIdx + 1) mod n) []"

definition pathCCW :: "nat \<Rightarrow> nat \<Rightarrow> nat \<Rightarrow> nat list option" where
  "pathCCW n startIdx endIdx = walkCCW n endIdx ((startIdx + n - 1) mod n) []"

text \<open>
  The two branches that build \<^verbatim>\<open>newPoints\<close>. A loop
  \<^verbatim>\<open>for (let j = a; j < b; j++) newPoints.push(points[j])\<close> pushes \<open>pts ! j\<close> for
  \<open>j\<close> from \<open>a\<close> up to \<open>b - 1\<close>; both indices come from \<open>findIndex\<close>, so every read is
  in range.
\<close>

definition spliceCW :: "Point list \<Rightarrow> nat \<Rightarrow> nat \<Rightarrow> Point list \<Rightarrow> Point list" where
  "spliceCW pts startIdx endIdx newPendingPoints =
     map (\<lambda>j. pts ! j) [0..<startIdx + 1] @ newPendingPoints
       @ map (\<lambda>j. pts ! j) [endIdx..<length pts]"

definition spliceCCW :: "Point list \<Rightarrow> nat \<Rightarrow> nat \<Rightarrow> Point list \<Rightarrow> Point list" where
  "spliceCCW pts startIdx endIdx newPendingPoints =
     map (\<lambda>j. pts ! j) [0..<endIdx + 1] @ rev newPendingPoints
       @ map (\<lambda>j. pts ! j) [startIdx..<length pts]"

text \<open>The replacement branch of \<^verbatim>\<open>COMMIT_EDIT\<close>, entered once both anchor ids are truthy.\<close>

definition commitReplace :: "AppStateData \<Rightarrow> PendingEdit \<Rightarrow> AppStateData option" where
  "commitReplace st pe =
     (let pts = points (coastline st);
          n = length pts;
          startIdx = findIndex (\<lambda>p. Some (p_id p) = startAnchorId pe) pts;
          endIdx = findIndex (\<lambda>p. Some (p_id p) = endAnchorId pe) pts
      in case startIdx of
           None \<Rightarrow> Some (st\<lparr>pendingEdit := None\<rparr>)
         | Some si \<Rightarrow>
             (case endIdx of
                None \<Rightarrow> Some (st\<lparr>pendingEdit := None\<rparr>)
              | Some ei \<Rightarrow>
                  (case pathCW n si ei of
                     None \<Rightarrow> None
                   | Some cw \<Rightarrow>
                       (case pathCCW n si ei of
                          None \<Rightarrow> None
                        | Some ccw \<Rightarrow>
                            (let useCW = (length cw \<le> length ccw);
                                 newPendingPoints = e_points pe;
                                 newPoints =
                                   (if useCW then spliceCW pts si ei newPendingPoints
                                    else spliceCCW pts si ei newPendingPoints)
                             in Some (st\<lparr>coastline := (coastline st)\<lparr>points := newPoints\<rparr>,
                                        pendingEdit := None\<rparr>))))))"

definition commitEdit :: "AppStateData \<Rightarrow> AppStateData option" where
  "commitEdit st =
     (case pendingEdit st of
        None \<Rightarrow> Some st
      | Some pe \<Rightarrow>
          if e_type pe = EditAdd then
            Some (st\<lparr>coastline := \<lparr>points = points (coastline st) @ e_points pe, isClosed = True\<rparr>,
                    pendingEdit := None\<rparr>)
          else if e_type pe = EditReplace \<and> truthy (startAnchorId pe) \<and> truthy (endAnchorId pe)
          then commitReplace st pe
          else Some (st\<lparr>pendingEdit := None\<rparr>))"

text \<open>
  \<^verbatim>\<open>generateId()\<close> is \<^verbatim>\<open>Math.random().toString(36).substring(2, 11)\<close>: it reads no
  argument and no field of the store. The string it returns in a run is therefore an
  input of that run, the first argument \<open>gid\<close> of \<open>reduce\<close>. The result is \<open>None\<close>
  exactly when a loop of the reducer does not return.
\<close>

fun reduce :: "string \<Rightarrow> AppStateData \<Rightarrow> Action \<Rightarrow> AppStateData option" where
  "reduce gid st (SET_MODE m) = Some (st\<lparr>currentMode := m\<rparr>)"
| "reduce gid st (SET_COASTLINE_SUBMODE m) = Some (st\<lparr>coastlineSubMode := m\<rparr>)"
| "reduce gid st (SET_BACKGROUND_VISIBLE b) = Some (st\<lparr>isBackgroundVisible := b\<rparr>)"
| "reduce gid st (ADD_POINT x y) =
     (let newPoint = \<lparr>p_x = x, p_y = y, p_id = gid\<rparr>
      in if isClosed (coastline st) then
           (let pe = (case pendingEdit st of
                        Some e \<Rightarrow> e
                      | None \<Rightarrow> \<lparr>e_type = EditReplace, e_points = [], startAnchorId = None,
                                  endAnchorId = None, replacedPointIds = None\<rparr>)
            in Some (st\<lparr>pendingEdit := Some (pe\<lparr>e_points := e_points pe @ [newPoint]\<rparr>)\<rparr>))
         else Some (st\<lparr>coastline := (coastline st)\<lparr>points := points (coastline st) @ [newPoint]\<rparr>\<rparr>))"
| "reduce gid st CLOSE_COASTLINE = Some (st\<lparr>coastline := (coastline st)\<lparr>isClosed := True\<rparr>\<rparr>)"
| "reduce gid st (SET_PENDING_EDIT e) = Some (st\<lparr>pendingEdit := e\<rparr>)"
| "reduce gid st COMMIT_EDIT = commitEdit st"
| "reduce gid st CANCEL_EDIT = Some (st\<lparr>pendingEdit := None\<rparr>)"
| "reduce gid st (REMOVE_POINT pointId) =
     Some (st\<lparr>coastline := (coastline st)
             \<lparr>points := filter (\<lambda>p. p_id p \<noteq> pointId) (points (coastline st))\<rparr>\<rparr>)"
| "reduce gid st (MOVE_POINT i x y) =
     Some (st\<lparr>coastline := (coastline st)
             \<lparr>points := map (\<lambda>p. if p_id p = i then p\<lparr>p_x := x, p_y := y\<rparr> else p)
                           (points (coastline st))\<rparr>\<rparr>)"
| "reduce gid st (LOAD_STATE payload) = Some payload"
| "reduce gid st UNDO = Some st"
| "reduce gid st (ADD_TOWER x y) =
     (let newTower = \<lparr>t_id = gid, t_x = x, t_y = y, t_type = selectedTowerType st,
                      t_power = selectedTowerPower st\<rparr>
      in Some (st\<lparr>towers := \<lparr>towers_of = towers_of (towers st) @ [newTower]\<rparr>\<rparr>))"
| "reduce gid st (REMOVE_TOWER towerId) =
     Some (st\<lparr>towers := \<lparr>towers_of = filter (\<lambda>t. t_id t \<noteq> towerId) (towers_of (towers st))\<rparr>\<rparr>)"
| "reduce gid st (UPDATE_TOWER updatedTower) =
     Some (st\<lparr>towers := \<lparr>towers_of =
             map (\<lambda>t. if t_id t = t_id updatedTower then updatedTower else t)
                 (towers_of (towers st))\<rparr>\<rparr>)"
| "reduce gid st (SET_TOWER_TYPE ty) = Some (st\<lparr>selectedTowerType := ty\<rparr>)"
| "reduce gid st (SET_TOWER_POWER pw) = Some (st\<lparr>selectedTowerPower := pw\<rparr>)"
| "reduce gid st (ADD_SETTLEMENT x y) =
     (let newSettlement = \<lparr>s_id = gid, s_x = x, s_y = y, s_name = [],
                           s_size = selectedSettlementSize st\<rparr>
      in Some (st\<lparr>settlements :=
                    \<lparr>settlements_of = settlements_of (settlements st) @ [newSettlement]\<rparr>\<rparr>))"
| "reduce gid st (REMOVE_SETTLEMENT settlementId) =
     Some (st\<lparr>settlements := \<lparr>settlements_of =
             filter (\<lambda>s. s_id s \<noteq> settlementId) (settlements_of (settlements st))\<rparr>\<rparr>)"
| "reduce gid st (UPDATE_SETTLEMENT updatedSettlement) =
     Some (st\<lparr>settlements := \<lparr>settlements_of =
             map (\<lambda>s. if s_id s = s_id updatedSettlement then updatedSettlement else s)
                 (settlements_of (settlements st))\<rparr>\<rparr>)"
| "reduce gid st (SET_SETTLEMENT_SIZE sz) = Some (st\<lparr>selectedSettlementSize := sz\<rparr>)"
| "reduce gid st (ADD_ROAD startId endId) =
     (let newRoad = \<lparr>r_id = gid, startSettlementId = startId, endSettlementId = endId,
                     safe = selectedRoadSafe st\<rparr>
      in Some (st\<lparr>roads := \<lparr>roads_of = roads_of (roads st) @ [newRoad]\<rparr>,
                 pendingRoadStartId := None\<rparr>))"
| "reduce gid st (REMOVE_ROAD roadId) =
     Some (st\<lparr>roads := \<lparr>roads_of = filter (\<lambda>r. r_id r \<noteq> roadId) (roads_of (roads st))\<rparr>\<rparr>)"
| "reduce gid st (UPDATE_ROAD updatedRoad) =
     Some (st\<lparr>roads := \<lparr>roads_of =
             map (\<lambda>r. if r_id r = r_id updatedRoad then updatedRoad else r)
                 (roads_of (roads st))\<rparr>\<rparr>)"
| "reduce gid st (SET_ROAD_SAFE b) = Some (st\<lparr>selectedRoadSafe := b\<rparr>)"
| "reduce gid st (SET_PENDING_ROAD_START i) = Some (st\<lparr>pendingRoadStartId := i\<rparr>)"
| "reduce gid st (SELECT_TOWER i) = Some (st\<lparr>selectedTowerId := i\<rparr>)"
| "reduce gid st (SELECT_SETTLEMENT i) = Some (st\<lparr>selectedSettlementId := i\<rparr>)"
| "reduce gid st (OTHER t) = Some st"

section \<open>The store: dispatch, undo and history (src/state/AppState.ts)\<close>

text \<open>
  \<^verbatim>\<open>createInitialState\<close>, with \<^verbatim>\<open>TOWER_SIZE.defaultPower = 200\<close> and
  \<^verbatim>\<open>SETTLEMENT_SIZE.defaultSize = 1\<close> from \<^verbatim>\<open>config/constants.ts\<close>.
\<close>

definition createInitialState :: AppStateData where
  "createInitialState =
     \<lparr>currentMode = Mode_coastline, coastlineSubMode = SubAdd,
      coastline = \<lparr>points = [], isClosed = False\<rparr>,
      towers = \<lparr>towers_of = []\<rparr>, settlements = \<lparr>settlements_of = []\<rparr>,
      roads = \<lparr>roads_of = []\<rparr>, pendingEdit = None, isBackgroundVisible = True,
      selectedTowerType = aquagen, selectedTowerPower = 200, selectedSettlementSize = 1,
      selectedRoadSafe = True, pendingRoadStartId = None, selectedTowerId = None,
      selectedSettlementId = None\<rparr>"

text \<open>
  The private fields of class \<^verbatim>\<open>AppState\<close>. A listener is an opaque callback: the model
  keeps a handle for each subscribed listener, in subscription order, and the field
  \<open>delivered\<close> records every call \<^verbatim>\<open>listener(event)\<close> the store has made, in order.
\<close>

record Store =
  state :: AppStateData
  listeners :: "nat list"
  history :: "AppStateData list"
  delivered :: "(nat \<times> StateChangeEvent) list"

definition maxHistory :: nat where
  "maxHistory = 50"

definition newAppState :: Store where
  "newAppState = \<lparr>state = createInitialState, listeners = [], history = [], delivered = []\<rparr>"

text \<open>
  \<^verbatim>\<open>deepClone\<close> is \<^verbatim>\<open>JSON.parse(JSON.stringify(obj))\<close>. On a state of strings, booleans,
  finite numbers, arrays and absent optional fields it builds an equal value that shares
  no object with the original; HOL values have no identity, so the copy is the value.
\<close>

definition deepClone :: "AppStateData \<Rightarrow> AppStateData" where
  "deepClone obj = obj"

definition notify :: "Store \<Rightarrow> StateChangeEvent \<Rightarrow> (nat \<times> StateChangeEvent) list" where
  "notify store event = delivered store @ map (\<lambda>listener. (listener, event)) (listeners store)"

text \<open>
  \<^verbatim>\<open>history.push(previousState)\<close> followed by the \<^verbatim>\<open>shift()\<close> that drops the oldest
  entry once the length exceeds \<^verbatim>\<open>maxHistory\<close>.
\<close>

definition pushHistory :: "AppStateData list \<Rightarrow> AppStateData \<Rightarrow> AppStateData list" where
  "pushHistory h previous =
     (let h1 = h @ [previous] in if length h1 > maxHistory then tl h1 else h1)"

definition dispatch :: "string \<Rightarrow> Action \<Rightarrow> Store \<Rightarrow> Store option" where
  "dispatch gid a store =
     (let previous = deepClone (state store);
          h = (if actionType a \<noteq> ''UNDO'' then pushHistory (history store) previous
               else history store)
      in case reduce gid (state store) a of
           None \<Rightarrow> None
         | Some next \<Rightarrow>
             Some (store\<lparr>state := next, history := h,
                     delivered := notify store
                       \<lparr>ev_action = a, previousState = previous, newState = next\<rparr>\<rparr>))"

text \<open>\<^verbatim>\<open>undo()\<close> returns its boolean together with the store it leaves.\<close>

definition undo :: "Store \<Rightarrow> bool \<times> Store" where
  "undo store =
     (if length (history store) = 0 then (False, store)
      else
        (let previous = last (history store);
             current = state store
         in (True, store\<lparr>state := previous, history := butlast (history store),
                     delivered := notify store
                       \<lparr>ev_action = UNDO, previousState = current, newState = previous\<rparr>\<rparr>)))"

text \<open>
  A run of dispatches, each with the id its \<^verbatim>\<open>generateId()\<close> call would return, and a
  run of \<open>k\<close> calls of \<^verbatim>\<open>undo()\<close>, collecting the booleans returned.
\<close>

fun dispatchAll :: "(string \<times> Action) list \<Rightarrow> Store \<Rightarrow> Store option" where
  "dispatchAll [] store = Some store"
| "dispatchAll (ga # rest) store =
     (case dispatch (fst ga) (snd ga) store of
        None \<Rightarrow> None
      | Some store1 \<Rightarrow> dispatchAll rest store1)"

fun undoN :: "nat \<Rightarrow> Store \<Rightarrow> bool list \<times> Store" where
  "undoN 0 store = ([], store)"
| "undoN (Suc k) store =
     (let r = undo store; rs = undoN k (snd r) in (fst r # fst rs, snd rs))"

section \<open>The caller of the store (annotations/CoastlineMode.ts)\<close>

text \<open>
  \<^verbatim>\<open>handleRemoveModeClick(clickedPoint)\<close>: the click handler of the remove sub-mode, the
  only place that dispatches \<^verbatim>\<open>REMOVE_POINT\<close>. The status line it writes to the page is
  left out.
\<close>

definition handleRemoveModeClick :: "string \<Rightarrow> Point option \<Rightarrow> Store \<Rightarrow> Store option" where
  "handleRemoveModeClick gid clickedPoint store =
     (case clickedPoint of
        Some p \<Rightarrow>
          if length (points (coastline (state store))) \<le> 3 then Some store
          else dispatch gid (REMOVE_POINT (p_id p)) store
      | None \<Rightarrow> Some store)"

text \<open>
  \<^verbatim>\<open>findReplacedPointIds(startId, endId)\<close>: the same two walks as the reducer, collecting
  \<^verbatim>\<open>points[i].id\<close> instead of \<^verbatim>\<open>i\<close>, and returning the shorter path.
\<close>

partial_function (option) walkIdsCW ::
  "Point list \<Rightarrow> nat \<Rightarrow> nat \<Rightarrow> string list \<Rightarrow> string list option" where
  "walkIdsCW pts endIdx i path =
     (if i \<noteq> endIdx
      then walkIdsCW pts endIdx ((i + 1) mod length pts) (path @ [p_id (pts ! i)])
      else Some path)"

partial_function (option) walkIdsCCW ::
  "Point list \<Rightarrow> nat \<Rightarrow> nat \<Rightarrow> string list \<Rightarrow> string list option" where
  "walkIdsCCW pts endIdx i path =
     (if i \<noteq> endIdx
      then walkIdsCCW pts endIdx ((i + length pts - 1) mod length pts) (path @ [p_id (pts ! i)])
      else Some path)"

declare walkIdsCW.simps [code]

declare walkIdsCCW.simps [code]

definition findReplacedPointIds :: "Point list \<Rightarrow> string \<Rightarrow> string \<Rightarrow> string list option" where
  "findReplacedPointIds pts startId endId =
     (let n = length pts;
          startIdx = findIndex (\<lambda>p. p_id p = startId) pts;
          endIdx = findIndex (\<lambda>p. p_id p = endId) pts
      in case startIdx of
           None \<Rightarrow> Some []
         | Some si \<Rightarrow>
             (case endIdx of
                None \<Rightarrow> Some []
              | Some ei \<Rightarrow>
                  (case walkIdsCW pts ei ((si + 1) mod n) [] of
                     None \<Rightarrow> None
                   | Some cw \<Rightarrow>
                       (case walkIdsCCW pts ei ((si + n - 1) mod n) [] of
                          None \<Rightarrow> None
                        | Some ccw \<Rightarrow> Some (if length cw \<le> length ccw then cw else ccw)))))"

section \<open>Auxiliary notions for the statements\<close>

text \<open>
  The number of forward (backward) steps from index \<open>i\<close> to index \<open>e\<close> around a cycle
  of \<open>n\<close> positions.
\<close>

definition fwdDist :: "nat \<Rightarrow> nat \<Rightarrow> nat \<Rightarrow> nat" where
  "fwdDist n i e = (if i \<le> e then e - i else e + n - i)"

definition bwdDist :: "nat \<Rightarrow> nat \<Rightarrow> nat \<Rightarrow> nat" where
  "bwdDist n i e = (if e \<le> i then i - e else i + n - e)"

text \<open>
  The number of entries that \<open>k\<close> pushes drop from the front of a history of length \<open>h\<close>.
\<close>

definition evicted :: "nat \<Rightarrow> nat \<Rightarrow> nat" where
  "evicted h k = (if h < maxHistory then h + k - maxHistory else k)"

text \<open>The cases of the switch whose body calls \<^verbatim>\<open>generateId()\<close>.\<close>

fun generatesId :: "Action \<Rightarrow> bool" where
  "generatesId (ADD_POINT _ _) = True"
| "generatesId (ADD_TOWER _ _) = True"
| "generatesId (ADD_SETTLEMENT _ _) = True"
| "generatesId (ADD_ROAD _ _) = True"
| "generatesId _ = False"

text \<open>
  The state \<open>s\<close> with the id of the element that the action appended replaced by \<open>g\<close>:
  the last vertex of the boundary (of the pending edit, when the boundary is closed) for
  \<^verbatim>\<open>ADD_POINT\<close>, the last tower, settlement or road for the other three cases that call
  \<^verbatim>\<open>generateId()\<close>.
\<close>

definition renewLast :: "('a \<Rightarrow> 'a) \<Rightarrow> 'a list \<Rightarrow> 'a list" where
  "renewLast f vs = (if vs = [] then [] else butlast vs @ [f (last vs)])"

fun setNewId :: "Action \<Rightarrow> string \<Rightarrow> AppStateData \<Rightarrow> AppStateData" where
  "setNewId (ADD_POINT _ _) g s =
     (if isClosed (coastline s)
      then s\<lparr>pendingEdit := map_option
               (\<lambda>pe. pe\<lparr>e_points := renewLast (\<lambda>p. p\<lparr>p_id := g\<rparr>) (e_points pe)\<rparr>) (pendingEdit s)\<rparr>
      else s\<lparr>coastline := (coastline s)
               \<lparr>points := renewLast (\<lambda>p. p\<lparr>p_id := g\<rparr>) (points (coastline s))\<rparr>\<rparr>)"
| "setNewId (ADD_TOWER _ _) g s =
     s\<lparr>towers := \<lparr>towers_of = renewLast (\<lambda>t. t\<lparr>t_id := g\<rparr>) (towers_of (towers s))\<rparr>\<rparr>"
| "setNewId (ADD_SETTLEMENT _ _) g s =
     s\<lparr>settlements :=
         \<lparr>settlements_of = renewLast (\<lambda>v. v\<lparr>s_id := g\<rparr>) (settlements_of (settlements s))\<rparr>\<rparr>"
| "setNewId (ADD_ROAD _ _) g s =
     s\<lparr>roads := \<lparr>roads_of = renewLast (\<lambda>r. r\<lparr>r_id := g\<rparr>) (roads_of (roads s))\<rparr>\<rparr>"
| "setNewId _ g s = s"

text \<open>Concrete inputs: a vertex at the origin, a closed boundary, a replacement edit.\<close>

definition vertex :: "string \<Rightarrow> Point" where
  "vertex i = \<lparr>p_x = 0, p_y = 0, p_id = i\<rparr>"

definition closedBoundary :: "Point list \<Rightarrow> PendingEdit option \<Rightarrow> AppStateData" where
  "closedBoundary pts pe =
     createInitialState\<lparr>coastline := \<lparr>points = pts, isClosed = True\<rparr>, pendingEdit := pe\<rparr>"

definition openBoundary :: "Point list \<Rightarrow> PendingEdit option \<Rightarrow> AppStateData" where
  "openBoundary pts pe =
     createInitialState\<lparr>coastline := \<lparr>points = pts, isClosed = False\<rparr>, pendingEdit := pe\<rparr>"

definition replaceEdit :: "Point list \<Rightarrow> string \<Rightarrow> string \<Rightarrow> PendingEdit" where
  "replaceEdit draft startId endId =
     \<lparr>e_type = EditReplace, e_points = draft, startAnchorId = Some startId,
      endAnchorId = Some endId, replacedPointIds = None\<rparr>"

definition storeOf :: "AppStateData \<Rightarrow> AppStateData list \<Rightarrow> Store" where
  "storeOf st h = \<lparr>state = st, listeners = [0], history = h, delivered = []\<rparr>"

section \<open>The two walks and the totality of the reducer\<close>

lemma upt_shift_map: "map f [0..<Suc d] = f 0 # map (\<lambda>k. f (Suc k)) [0..<d]"
proof -
  have "[0..<Suc d] = 0 # map Suc [0..<d]"
    by (simp add: upt_conv_Cons map_Suc_upt del: upt_Suc)
  then show ?thesis by (simp add: comp_def del: upt_Suc)
qed

lemma fwdDist_step:
  assumes "i < n" "e < n" "i \<noteq> e"
  shows "fwdDist n i e = Suc (fwdDist n ((i + 1) mod n) e)"
proof (cases "i + 1 < n")
  case True
  then have "(i + 1) mod n = i + 1" by simp
  with assms show ?thesis by (auto simp: fwdDist_def)
next
  case False
  with assms have "i + 1 = n" by simp
  then have "(i + 1) mod n = 0" by simp
  with assms \<open>i + 1 = n\<close> show ?thesis by (auto simp: fwdDist_def)
qed

lemma walkCW_closed:
  "i < n \<Longrightarrow> e < n \<Longrightarrow> fwdDist n i e = d \<Longrightarrow>
   walkCW n e i path = Some (path @ map (\<lambda>k. (i + k) mod n) [0..<d])"
proof (induction d arbitrary: i path)
  case 0
  then have "i = e" by (auto simp: fwdDist_def split: if_splits)
  then show ?case by (subst walkCW.simps) simp
next
  case (Suc d)
  have ne: "i \<noteq> e" using Suc.prems by (auto simp: fwdDist_def)
  let ?j = "(i + 1) mod n"
  have j: "?j < n" using Suc.prems by simp
  have dj: "fwdDist n ?j e = d" using fwdDist_step[OF Suc.prems(1,2) ne] Suc.prems(3) by simp
  have step: "walkCW n e i path = walkCW n e ?j (path @ [i])"
    using ne by (subst walkCW.simps) simp
  have el: "\<And>k. (?j + k) mod n = (i + Suc k) mod n"
    by (simp add: mod_add_left_eq)
  have "map (\<lambda>k. (i + k) mod n) [0..<Suc d] = i # map (\<lambda>k. (?j + k) mod n) [0..<d]"
    using Suc.prems(1) by (simp only: upt_shift_map el) simp
  then show ?case using Suc.IH[OF j Suc.prems(2) dj, of "path @ [i]"] step by simp
qed


lemma bwd_mod_zero: "0 < n \<Longrightarrow> (0 + n - 1) mod n = n - (1::nat)"
  by simp

lemma bwd_mod_pos:
  assumes "i < n" "i \<noteq> 0"
  shows "(i + n - 1) mod n = i - (1::nat)"
proof -
  have e1: "i + n - 1 = (i - 1) + n" using assms(2) by arith
  have "(i + n - 1) mod n = (i - 1) mod n" unfolding e1 by (rule mod_add_self2)
  also have "\<dots> = i - 1" using assms(1) by (intro mod_less) arith
  finally show ?thesis .
qed

lemma bwdDist_step:
  assumes "i < n" "e < n" "i \<noteq> e"
  shows "bwdDist n i e = Suc (bwdDist n ((i + n - 1) mod n) e)"
proof (cases "i = 0")
  case True
  have m: "(i + n - 1) mod n = n - 1" unfolding True using assms(1) by (intro bwd_mod_zero) arith
  show ?thesis unfolding m bwdDist_def using assms True by (simp split: if_splits) arith
next
  case False
  have m: "(i + n - 1) mod n = i - 1" using assms(1) False by (rule bwd_mod_pos)
  show ?thesis unfolding m bwdDist_def using assms False by (simp split: if_splits) arith
qed

lemma walkCCW_closed:
  "i < n \<Longrightarrow> e < n \<Longrightarrow> bwdDist n i e = d \<Longrightarrow>
   walkCCW n e i path = Some (path @ map (\<lambda>k. (i + n - k) mod n) [0..<d])"
proof (induction d arbitrary: i path)
  case 0
  then have "i = e" by (auto simp: bwdDist_def split: if_splits)
  then show ?case by (subst walkCCW.simps) simp
next
  case (Suc d)
  have ne: "i \<noteq> e" using Suc.prems by (auto simp: bwdDist_def)
  let ?j = "(i + n - 1) mod n"
  have j: "?j < n" using Suc.prems by simp
  have dj: "bwdDist n ?j e = d" using bwdDist_step[OF Suc.prems(1,2) ne] Suc.prems(3) by simp
  have dn: "Suc d \<le> n" using Suc.prems by (auto simp: bwdDist_def split: if_splits)
  have step: "walkCCW n e i path = walkCCW n e ?j (path @ [i])"
    using ne by (subst walkCCW.simps) simp
  have el: "(?j + n - k) mod n = (i + n - Suc k) mod n" if "k < d" for k
  proof -
    have "(?j + n - k) mod n = (?j + (n - k)) mod n" using that dn by simp
    also have "\<dots> = ((i + n - 1) + (n - k)) mod n" by (simp add: mod_add_left_eq)
    also have "(i + n - 1) + (n - k) = (i + n - Suc k) + n" using that dn by simp
    finally show ?thesis by simp
  qed
  have "map (\<lambda>k. (i + n - k) mod n) [0..<Suc d] = i # map (\<lambda>k. (i + n - Suc k) mod n) [0..<d]"
    using Suc.prems(1) by (simp only: upt_shift_map) simp
  also have "map (\<lambda>k. (i + n - Suc k) mod n) [0..<d] = map (\<lambda>k. (?j + n - k) mod n) [0..<d]"
    using el by simp
  finally show ?case using Suc.IH[OF j Suc.prems(2) dj, of "path @ [i]"] step by simp
qed


lemma pathCW_closed:
  assumes "s < n" "e < n" "s \<noteq> e"
  shows "pathCW n s e = Some (map (\<lambda>k. (s + 1 + k) mod n) [0..<fwdDist n s e - 1])"
proof -
  let ?j = "(s + 1) mod n"
  have j: "?j < n" using assms(1) by simp
  have d: "fwdDist n ?j e = fwdDist n s e - 1" using fwdDist_step[OF assms] by simp
  have "((s + 1) mod n + k) mod n = (s + 1 + k) mod n" for k by (simp add: mod_add_left_eq)
  then show ?thesis unfolding pathCW_def using walkCW_closed[OF j assms(2) d, of "[]"] by simp
qed

lemma pathCCW_closed:
  assumes "s < n" "e < n" "s \<noteq> e"
  shows "pathCCW n s e = Some (map (\<lambda>k. (s + n - 1 - k) mod n) [0..<bwdDist n s e - 1])"
proof -
  let ?j = "(s + n - 1) mod n"
  have j: "?j < n" using assms(1) by simp
  have d: "bwdDist n ?j e = bwdDist n s e - 1" using bwdDist_step[OF assms] by simp
  have dn: "bwdDist n s e \<le> n" using assms unfolding bwdDist_def by (simp split: if_splits) arith
  have el: "(?j + n - k) mod n = (s + n - 1 - k) mod n" if "k < bwdDist n s e - 1" for k
  proof -
    have "(?j + n - k) mod n = (?j + (n - k)) mod n" using that dn by simp
    also have "\<dots> = ((s + n - 1) + (n - k)) mod n" by (simp add: mod_add_left_eq)
    also have "(s + n - 1) + (n - k) = (s + n - 1 - k) + n" using that dn by arith
    finally show ?thesis by simp
  qed
  have "map (\<lambda>k. (?j + n - k) mod n) [0..<bwdDist n s e - 1]
        = map (\<lambda>k. (s + n - 1 - k) mod n) [0..<bwdDist n s e - 1]"
    using el by simp
  then show ?thesis unfolding pathCCW_def using walkCCW_closed[OF j assms(2) d, of "[]"] by simp
qed

lemma pathCW_total: "s < n \<Longrightarrow> e < n \<Longrightarrow> \<exists>cw. pathCW n s e = Some cw"
  unfolding pathCW_def by (rule exI, rule walkCW_closed[OF _ _ refl]) simp_all

lemma pathCCW_total: "s < n \<Longrightarrow> e < n \<Longrightarrow> \<exists>ccw. pathCCW n s e = Some ccw"
  unfolding pathCCW_def by (rule exI, rule walkCCW_closed[OF _ _ refl]) simp_all

lemma arc_lengths_sum:
  assumes "s < n" "e < n" "s \<noteq> e"
  shows "(fwdDist n s e - 1) + (bwdDist n s e - 1) = n - 2"
  using assms unfolding fwdDist_def bwdDist_def by (simp split: if_splits)

lemma findIndex_Some:
  "findIndex P xs = Some i \<Longrightarrow> i < length xs \<and> P (xs ! i) \<and> (\<forall>j<i. \<not> P (xs ! j))"
proof (induction xs arbitrary: i)
  case Nil
  then show ?case by simp
next
  case (Cons v vs)
  show ?case
  proof (cases "P v")
    case True
    with Cons.prems show ?thesis by simp
  next
    case False
    with Cons.prems obtain k where k: "findIndex P vs = Some k" "i = Suc k" by auto
    from Cons.IH[OF k(1)] False k(2) show ?thesis by (auto simp: less_Suc_eq_0_disj)
  qed
qed

lemma findIndex_None: "findIndex P xs = None \<longleftrightarrow> (\<forall>v\<in>set xs. \<not> P v)"
  by (induction xs) auto

lemma findIndex_distinct:
  "distinct (map f xs) \<Longrightarrow> i < length xs \<Longrightarrow> findIndex (\<lambda>v. f v = f (xs ! i)) xs = Some i"
proof (induction xs arbitrary: i)
  case Nil
  then show ?case by simp
next
  case (Cons v vs)
  show ?case
  proof (cases i)
    case 0
    then show ?thesis by simp
  next
    case (Suc k)
    with Cons.prems have "k < length vs" "f (vs ! k) \<in> f ` set vs" by auto
    with Cons.prems Suc have "f v \<noteq> f (vs ! k)" by auto
    with Cons.IH[of k] Cons.prems Suc \<open>k < length vs\<close> show ?thesis by simp
  qed
qed

lemma map_nth_take: "k \<le> length xs \<Longrightarrow> map (\<lambda>j. xs ! j) [0..<k] = take k xs"
  by (rule nth_equalityI) simp_all

lemma map_nth_drop: "map (\<lambda>j. xs ! j) [k..<length xs] = drop k xs"
  by (rule nth_equalityI) simp_all

lemma spliceCW_take_drop:
  "s < length pts \<Longrightarrow> spliceCW pts s e d = take (s + 1) pts @ d @ drop e pts"
  unfolding spliceCW_def by (simp add: map_nth_take map_nth_drop del: upt_Suc)

lemma spliceCCW_take_drop:
  "e < length pts \<Longrightarrow> spliceCCW pts s e d = take (e + 1) pts @ rev d @ drop s pts"
  unfolding spliceCCW_def by (simp add: map_nth_take map_nth_drop del: upt_Suc)

lemma commitReplace_total: "\<exists>st'. commitReplace st pe = Some st'"
proof -
  let ?pts = "points (coastline st)"
  show ?thesis
  proof (cases "findIndex (\<lambda>p. Some (p_id p) = startAnchorId pe) ?pts")
    case None
    then show ?thesis by (simp add: commitReplace_def)
  next
    case (Some si)
    note si = this
    show ?thesis
    proof (cases "findIndex (\<lambda>p. Some (p_id p) = endAnchorId pe) ?pts")
      case None
      with si show ?thesis by (simp add: commitReplace_def)
    next
      case (Some ei)
      from findIndex_Some[OF si] findIndex_Some[OF Some]
      have b: "si < length ?pts" "ei < length ?pts" by simp_all
      from pathCW_total[OF b] pathCCW_total[OF b] obtain cw ccw where
        "pathCW (length ?pts) si ei = Some cw" "pathCCW (length ?pts) si ei = Some ccw" by blast
      with si Some show ?thesis by (simp add: commitReplace_def Let_def)
    qed
  qed
qed

lemma commitEdit_total: "\<exists>st'. commitEdit st = Some st'"
  using commitReplace_total by (simp add: commitEdit_def split: option.splits)

lemma reduce_total: "\<exists>st'. reduce gid st a = Some st'"
  by (cases a) (simp_all add: commitEdit_total Let_def)

section \<open>The shortest arc\<close>

lemma mod_twice: "a < 2 * n \<Longrightarrow> a mod n = (if a < n then a else a - (n::nat))"
  by (simp add: le_mod_geq)

lemma cw_stops_at_end:
  assumes "s < n" "e < n" "s \<noteq> e"
  shows "(s + 1 + (fwdDist n s e - 1)) mod n = e"
proof (cases "s < e")
  case True
  then have "s + 1 + (fwdDist n s e - 1) = e" by (simp add: fwdDist_def)
  with assms(2) show ?thesis by simp
next
  case False
  with assms have "s + 1 + (fwdDist n s e - 1) = e + n" by (simp add: fwdDist_def)
  with assms(2) show ?thesis by simp
qed

lemma ccw_stops_at_end:
  assumes "s < n" "e < n" "s \<noteq> e"
  shows "(s + n - 1 - (bwdDist n s e - 1)) mod n = e"
proof (cases "e < s")
  case True
  with assms have "s + n - 1 - (bwdDist n s e - 1) = e + n" by (simp add: bwdDist_def)
  with assms(2) show ?thesis by simp
next
  case False
  with assms have "s + n - 1 - (bwdDist n s e - 1) = e" by (simp add: bwdDist_def)
  with assms(2) show ?thesis by simp
qed

lemma cw_excludes_end:
  assumes "s < n" "e < n" "s \<noteq> e" "k < fwdDist n s e - 1"
  shows "(s + 1 + k) mod n \<noteq> e"
proof -
  have "s + 1 + k < 2 * n" using assms by (simp add: fwdDist_def split: if_splits)
  then have "(s + 1 + k) mod n = (if s + 1 + k < n then s + 1 + k else s + 1 + k - n)"
    by (rule mod_twice)
  moreover have "(if s + 1 + k < n then s + 1 + k else s + 1 + k - n) \<noteq> e"
    using assms unfolding fwdDist_def by (simp split: if_splits; arith)
  ultimately show ?thesis by simp
qed

lemma ccw_excludes_end:
  assumes "s < n" "e < n" "s \<noteq> e" "k < bwdDist n s e - 1"
  shows "(s + n - 1 - k) mod n \<noteq> e"
proof -
  have "s + n - 1 - k < 2 * n" using assms by (simp add: bwdDist_def split: if_splits)
  then have "(s + n - 1 - k) mod n = (if s + n - 1 - k < n then s + n - 1 - k else s + n - 1 - k - n)"
    by (rule mod_twice)
  moreover have "(if s + n - 1 - k < n then s + n - 1 - k else s + n - 1 - k - n) \<noteq> e"
    using assms unfolding bwdDist_def by (simp split: if_splits; arith)
  ultimately show ?thesis by simp
qed

lemma walkIdsCW_walkCW:
  "i < length pts \<Longrightarrow> e < length pts \<Longrightarrow> fwdDist (length pts) i e = d \<Longrightarrow>
   walkIdsCW pts e i (map (\<lambda>j. p_id (pts ! j)) path)
     = map_option (map (\<lambda>j. p_id (pts ! j))) (walkCW (length pts) e i path)"
proof (induction d arbitrary: i path)
  case 0
  then have "i = e" by (auto simp: fwdDist_def split: if_splits)
  then show ?case by (subst walkCW.simps, subst walkIdsCW.simps) simp
next
  case (Suc d)
  have ne: "i \<noteq> e" using Suc.prems by (auto simp: fwdDist_def)
  let ?j = "(i + 1) mod length pts"
  have "0 < length pts" using Suc.prems(1) by arith
  then have j: "?j < length pts" by (rule mod_less_divisor)
  have dj: "fwdDist (length pts) ?j e = d"
    using fwdDist_step[OF Suc.prems(1,2) ne] Suc.prems(3) by simp
  have a: "walkCW (length pts) e i path = walkCW (length pts) e ?j (path @ [i])"
    using ne by (subst walkCW.simps) simp
  have b: "walkIdsCW pts e i (map (\<lambda>j. p_id (pts ! j)) path)
           = walkIdsCW pts e ?j (map (\<lambda>j. p_id (pts ! j)) (path @ [i]))"
    using ne by (subst walkIdsCW.simps) simp
  show ?case unfolding a b by (rule Suc.IH[OF j Suc.prems(2) dj])
qed

lemma walkIdsCCW_walkCCW:
  "i < length pts \<Longrightarrow> e < length pts \<Longrightarrow> bwdDist (length pts) i e = d \<Longrightarrow>
   walkIdsCCW pts e i (map (\<lambda>j. p_id (pts ! j)) path)
     = map_option (map (\<lambda>j. p_id (pts ! j))) (walkCCW (length pts) e i path)"
proof (induction d arbitrary: i path)
  case 0
  then have "i = e" by (auto simp: bwdDist_def split: if_splits)
  then show ?case by (subst walkCCW.simps, subst walkIdsCCW.simps) simp
next
  case (Suc d)
  have ne: "i \<noteq> e" using Suc.prems by (auto simp: bwdDist_def)
  let ?j = "(i + length pts - 1) mod length pts"
  have "0 < length pts" using Suc.prems(1) by arith
  then have j: "?j < length pts" by (rule mod_less_divisor)
  have dj: "bwdDist (length pts) ?j e = d"
    using bwdDist_step[OF Suc.prems(1,2) ne] Suc.prems(3) by simp
  have a: "walkCCW (length pts) e i path = walkCCW (length pts) e ?j (path @ [i])"
    using ne by (subst walkCCW.simps) simp
  have b: "walkIdsCCW pts e i (map (\<lambda>j. p_id (pts ! j)) path)
           = walkIdsCCW pts e ?j (map (\<lambda>j. p_id (pts ! j)) (path @ [i]))"
    using ne by (subst walkIdsCCW.simps) simp
  show ?case unfolding a b by (rule Suc.IH[OF j Suc.prems(2) dj])
qed

lemma findReplacedPointIds_paths:
  assumes "findIndex (\<lambda>p. p_id p = startId) pts = Some s"
    and "findIndex (\<lambda>p. p_id p = endId) pts = Some e"
    and "pathCW (length pts) s e = Some cw" "pathCCW (length pts) s e = Some ccw"
  shows "findReplacedPointIds pts startId endId
           = Some (map (\<lambda>i. p_id (pts ! i)) (if length cw \<le> length ccw then cw else ccw))"
proof -
  from findIndex_Some[OF assms(1)] findIndex_Some[OF assms(2)]
  have b: "s < length pts" "e < length pts" by simp_all
  have pos: "0 < length pts" using b(1) by arith
  have j1: "(s + 1) mod length pts < length pts" using pos by (rule mod_less_divisor)
  have j2: "(s + length pts - 1) mod length pts < length pts" using pos by (rule mod_less_divisor)
  have c1: "walkIdsCW pts e ((s + 1) mod length pts) [] = Some (map (\<lambda>i. p_id (pts ! i)) cw)"
    using walkIdsCW_walkCW[OF j1 b(2) refl, of "[]"] assms(3) by (simp add: pathCW_def)
  have c2: "walkIdsCCW pts e ((s + length pts - 1) mod length pts) []
            = Some (map (\<lambda>i. p_id (pts ! i)) ccw)"
    using walkIdsCCW_walkCCW[OF j2 b(2) refl, of "[]"] assms(4) by (simp add: pathCCW_def)
  show ?thesis using assms(1,2) c1 c2 by (simp add: findReplacedPointIds_def Let_def)
qed

lemma commitReplace_paths:
  assumes "findIndex (\<lambda>p. Some (p_id p) = startAnchorId pe) (points (coastline st)) = Some s"
    and "findIndex (\<lambda>p. Some (p_id p) = endAnchorId pe) (points (coastline st)) = Some e"
    and "pathCW (length (points (coastline st))) s e = Some cw"
    and "pathCCW (length (points (coastline st))) s e = Some ccw"
  shows "commitReplace st pe =
           Some (st\<lparr>coastline := (coastline st)\<lparr>points :=
                   if length cw \<le> length ccw
                   then spliceCW (points (coastline st)) s e (e_points pe)
                   else spliceCCW (points (coastline st)) s e (e_points pe)\<rparr>,
                 pendingEdit := None\<rparr>)"
  using assms by (simp add: commitReplace_def Let_def)

text \<open>
  Claim C2: for every cyclic boundary of size \<open>n \<ge> 3\<close> and every two distinct anchor
  indices \<open>s\<close> and \<open>e\<close>, both walks return; \<open>pathCW\<close> holds the indices from
  \<open>(s+1) mod n\<close> forward up to but excluding \<open>e\<close>, \<open>pathCCW\<close> those from
  \<open>(s-1+n) mod n\<close> backward down to but excluding \<open>e\<close>; their lengths add up to
  \<open>n - 2\<close>; and the engine takes the forward arc exactly when
  \<open>len(pathCW) \<le> len(pathCCW)\<close>, in the splice of \<^verbatim>\<open>COMMIT_EDIT\<close> and in the arc
  that \<^verbatim>\<open>findReplacedPointIds\<close> reports.
\<close>

theorem C2_shortest_arc:
  assumes "3 \<le> n" "s < n" "e < n" "s \<noteq> e"
  shows "\<exists>cw ccw. pathCW n s e = Some cw \<and> pathCCW n s e = Some ccw
     \<and> cw = map (\<lambda>k. (s + 1 + k) mod n) [0..<length cw]
     \<and> (s + 1 + length cw) mod n = e \<and> e \<notin> set cw
     \<and> ccw = map (\<lambda>k. (s + n - 1 - k) mod n) [0..<length ccw]
     \<and> (s + n - 1 - length ccw) mod n = e \<and> e \<notin> set ccw
     \<and> length cw + length ccw = n - 2
     \<and> (\<forall>st pe. length (points (coastline st)) = n
           \<and> findIndex (\<lambda>p. Some (p_id p) = startAnchorId pe) (points (coastline st)) = Some s
           \<and> findIndex (\<lambda>p. Some (p_id p) = endAnchorId pe) (points (coastline st)) = Some e
         \<longrightarrow> commitReplace st pe =
               Some (st\<lparr>coastline := (coastline st)\<lparr>points :=
                       if length cw \<le> length ccw
                       then spliceCW (points (coastline st)) s e (e_points pe)
                       else spliceCCW (points (coastline st)) s e (e_points pe)\<rparr>,
                     pendingEdit := None\<rparr>))
     \<and> (\<forall>pts startId endId. length pts = n
           \<and> findIndex (\<lambda>p. p_id p = startId) pts = Some s
           \<and> findIndex (\<lambda>p. p_id p = endId) pts = Some e
         \<longrightarrow> findReplacedPointIds pts startId endId =
               Some (map (\<lambda>i. p_id (pts ! i)) (if length cw \<le> length ccw then cw else ccw)))"
proof -
  let ?cw = "map (\<lambda>k. (s + 1 + k) mod n) [0..<fwdDist n s e - 1]"
  let ?ccw = "map (\<lambda>k. (s + n - 1 - k) mod n) [0..<bwdDist n s e - 1]"
  have p1: "pathCW n s e = Some ?cw" by (rule pathCW_closed[OF assms(2-4)])
  have p2: "pathCCW n s e = Some ?ccw" by (rule pathCCW_closed[OF assms(2-4)])
  have l1: "length ?cw = fwdDist n s e - 1" by simp
  have l2: "length ?ccw = bwdDist n s e - 1" by simp
  have f1: "?cw = map (\<lambda>k. (s + 1 + k) mod n) [0..<length ?cw]" by simp
  have f2: "?ccw = map (\<lambda>k. (s + n - 1 - k) mod n) [0..<length ?ccw]" by simp
  have e1: "(s + 1 + length ?cw) mod n = e" unfolding l1 by (rule cw_stops_at_end[OF assms(2-4)])
  have e2: "(s + n - 1 - length ?ccw) mod n = e"
    unfolding l2 by (rule ccw_stops_at_end[OF assms(2-4)])
  have x1: "e \<notin> set ?cw"
  proof
    assume "e \<in> set ?cw"
    then obtain k where "k < fwdDist n s e - 1" "(s + 1 + k) mod n = e" by auto
    with cw_excludes_end[OF assms(2-4)] show False by blast
  qed
  have x2: "e \<notin> set ?ccw"
  proof
    assume "e \<in> set ?ccw"
    then obtain k where "k < bwdDist n s e - 1" "(s + n - 1 - k) mod n = e" by auto
    with ccw_excludes_end[OF assms(2-4)] show False by blast
  qed
  have sm: "length ?cw + length ?ccw = n - 2" unfolding l1 l2 by (rule arc_lengths_sum[OF assms(2-4)])
  have c: "\<forall>st pe. length (points (coastline st)) = n
           \<and> findIndex (\<lambda>p. Some (p_id p) = startAnchorId pe) (points (coastline st)) = Some s
           \<and> findIndex (\<lambda>p. Some (p_id p) = endAnchorId pe) (points (coastline st)) = Some e
         \<longrightarrow> commitReplace st pe =
               Some (st\<lparr>coastline := (coastline st)\<lparr>points :=
                       if length ?cw \<le> length ?ccw
                       then spliceCW (points (coastline st)) s e (e_points pe)
                       else spliceCCW (points (coastline st)) s e (e_points pe)\<rparr>,
                     pendingEdit := None\<rparr>)"
    using commitReplace_paths p1 p2 by blast
  have r: "\<forall>pts startId endId. length pts = n
           \<and> findIndex (\<lambda>p. p_id p = startId) pts = Some s
           \<and> findIndex (\<lambda>p. p_id p = endId) pts = Some e
         \<longrightarrow> findReplacedPointIds pts startId endId =
               Some (map (\<lambda>i. p_id (pts ! i)) (if length ?cw \<le> length ?ccw then ?cw else ?ccw))"
    using findReplacedPointIds_paths p1 p2 by blast
  show ?thesis
    apply (rule exI[of _ ?cw], rule exI[of _ ?ccw])
    apply (intro conjI)
    apply (rule p1, rule p2, rule f1, rule e1, rule x1, rule f2, rule e2, rule x2, rule sm, rule c, rule r)
    done
qed

text \<open>
  The boundary \<open>[A,B,C,D,E]\<close> with anchors \<open>A\<close> (index 0) and \<open>C\<close> (index 2): the
  forward arc is \<open>[1]\<close>, the backward arc \<open>[4,3]\<close>, together \<open>5 - 2\<close> indices; the
  forward arc is taken, by the splice and by \<^verbatim>\<open>findReplacedPointIds\<close>.
\<close>

theorem C2_shortest_arc_witness:
  "(3::nat) \<le> 5 \<and> (0::nat) < 5 \<and> (2::nat) < 5 \<and> (0::nat) \<noteq> 2
   \<and> pathCW 5 0 2 = Some [1] \<and> pathCCW 5 0 2 = Some [4, 3]
   \<and> length [1::nat] + length [4, 3::nat] = 5 - 2
   \<and> commitReplace (closedBoundary [vertex ''A'', vertex ''B'', vertex ''C'', vertex ''D'', vertex ''E'']
          (Some (replaceEdit [vertex ''X'', vertex ''Y''] ''A'' ''C'')))
        (replaceEdit [vertex ''X'', vertex ''Y''] ''A'' ''C'')
      = Some (closedBoundary [vertex ''A'', vertex ''X'', vertex ''Y'', vertex ''C'',
                              vertex ''D'', vertex ''E''] None)
   \<and> findReplacedPointIds [vertex ''A'', vertex ''B'', vertex ''C'', vertex ''D'', vertex ''E'']
        ''A'' ''C'' = Some [''B'']"
proof -
  let ?pts = "[vertex ''A'', vertex ''B'', vertex ''C'', vertex ''D'', vertex ''E'']"
  let ?pe = "replaceEdit [vertex ''X'', vertex ''Y''] ''A'' ''C''"
  let ?st = "closedBoundary ?pts (Some ?pe)"
  have h: "(3::nat) \<le> 5" "(0::nat) < 5" "(2::nat) < 5" "(0::nat) \<noteq> 2" by simp_all
  have e1: "pathCW 5 0 2 = Some [1]" by (simp add: pathCW_def walkCW.simps)
  have e2: "pathCCW 5 0 2 = Some [4, 3]" by (simp add: pathCCW_def walkCCW.simps)
  from C2_shortest_arc[OF h] obtain cw ccw where
    p: "pathCW 5 0 2 = Some cw" "pathCCW 5 0 2 = Some ccw"
    and sm: "length cw + length ccw = 5 - 2"
    and c: "\<forall>st pe. length (points (coastline st)) = 5
           \<and> findIndex (\<lambda>p. Some (p_id p) = startAnchorId pe) (points (coastline st)) = Some 0
           \<and> findIndex (\<lambda>p. Some (p_id p) = endAnchorId pe) (points (coastline st)) = Some 2
         \<longrightarrow> commitReplace st pe =
               Some (st\<lparr>coastline := (coastline st)\<lparr>points :=
                       if length cw \<le> length ccw
                       then spliceCW (points (coastline st)) 0 2 (e_points pe)
                       else spliceCCW (points (coastline st)) 0 2 (e_points pe)\<rparr>,
                     pendingEdit := None\<rparr>)"
    and r: "\<forall>pts startId endId. length pts = 5
           \<and> findIndex (\<lambda>p. p_id p = startId) pts = Some 0
           \<and> findIndex (\<lambda>p. p_id p = endId) pts = Some 2
         \<longrightarrow> findReplacedPointIds pts startId endId =
               Some (map (\<lambda>i. p_id (pts ! i)) (if length cw \<le> length ccw then cw else ccw))"
    by (elim exE conjE)
  from p e1 e2 have v: "cw = [1]" "ccw = [4, 3]" by simp_all
  have g1: "length (points (coastline ?st)) = 5
           \<and> findIndex (\<lambda>p. Some (p_id p) = startAnchorId ?pe) (points (coastline ?st)) = Some 0
           \<and> findIndex (\<lambda>p. Some (p_id p) = endAnchorId ?pe) (points (coastline ?st)) = Some 2"
    by (simp add: closedBoundary_def vertex_def replaceEdit_def)
  have g2: "length ?pts = 5 \<and> findIndex (\<lambda>p. p_id p = ''A'') ?pts = Some 0
           \<and> findIndex (\<lambda>p. p_id p = ''C'') ?pts = Some 2"
    by (simp add: vertex_def)
  from c[rule_format, OF g1] v
  have k1: "commitReplace ?st ?pe = Some (closedBoundary [vertex ''A'', vertex ''X'', vertex ''Y'',
               vertex ''C'', vertex ''D'', vertex ''E''] None)"
    by (simp add: closedBoundary_def vertex_def replaceEdit_def spliceCW_def createInitialState_def)
  from r[rule_format, OF g2] v
  have k2: "findReplacedPointIds ?pts ''A'' ''C'' = Some [''B'']"
    by (simp add: vertex_def)
  from sm v have k3: "length [1::nat] + length [4, 3::nat] = 5 - 2" by simp
  show ?thesis using h e1 e2 k1 k2 k3 by simp
qed

section \<open>Facts about lists and records used below\<close>

lemma pendingEdit_None_idem: "pendingEdit st = None \<Longrightarrow> st\<lparr>pendingEdit := None\<rparr> = st"
  by (cases st) simp

lemma filter_distinct_length:
  "distinct (map f xs) \<Longrightarrow> a \<in> f ` set xs \<Longrightarrow>
   length (filter (\<lambda>v. f v \<noteq> a) xs) = length xs - 1"
proof (induction xs)
  case Nil
  then show ?case by simp
next
  case (Cons v vs)
  show ?case
  proof (cases "f v = a")
    case True
    with Cons.prems have "a \<notin> f ` set vs" by simp
    then have "\<forall>w\<in>set vs. f w \<noteq> a" by blast
    then have "filter (\<lambda>w. f w \<noteq> a) vs = vs" by simp
    with True show ?thesis by simp
  next
    case False
    with Cons.prems have "a \<in> f ` set vs" "distinct (map f vs)" by auto
    with Cons.IH have "length (filter (\<lambda>w. f w \<noteq> a) vs) = length vs - 1" by simp
    moreover from \<open>a \<in> f ` set vs\<close> have "vs \<noteq> []" by auto
    ultimately show ?thesis using False by (cases vs) simp_all
  qed
qed

section \<open>Committing an edit\<close>

text \<open>
  What the splice does when the chosen arc lies within the array, that is when the
  forward arc is chosen and \<open>s < e\<close>, or the backward arc is chosen and \<open>e < s\<close>: the
  anchors and the other arc stay in place, the draft points (reversed for the backward
  arc) take the place of the chosen arc, and the length is
  \<open>n - len(chosenArc) + len(draftPoints)\<close>.
\<close>

lemma commit_splice_within_array:
  assumes "findIndex (\<lambda>p. Some (p_id p) = startAnchorId pe) (points (coastline st)) = Some s"
    and "findIndex (\<lambda>p. Some (p_id p) = endAnchorId pe) (points (coastline st)) = Some e"
    and "pathCW (length (points (coastline st))) s e = Some cw"
    and "pathCCW (length (points (coastline st))) s e = Some ccw"
    and "s \<noteq> e"
    and "if length cw \<le> length ccw then s < e else e < s"
  shows "\<exists>newPoints. commitReplace st pe =
           Some (st\<lparr>coastline := (coastline st)\<lparr>points := newPoints\<rparr>, pendingEdit := None\<rparr>)
     \<and> newPoints =
         (if length cw \<le> length ccw
          then take (s + 1) (points (coastline st)) @ e_points pe @ drop e (points (coastline st))
          else take (e + 1) (points (coastline st)) @ rev (e_points pe) @ drop s (points (coastline st)))
     \<and> length newPoints + (if length cw \<le> length ccw then length cw else length ccw)
         = length (points (coastline st)) + length (e_points pe)"
proof -
  let ?pts = "points (coastline st)"
  from findIndex_Some[OF assms(1)] findIndex_Some[OF assms(2)]
  have b: "s < length ?pts" "e < length ?pts" by simp_all
  from pathCW_closed[OF b assms(5)] assms(3)
  have lcw: "length cw = fwdDist (length ?pts) s e - 1" by auto
  from pathCCW_closed[OF b assms(5)] assms(4)
  have lccw: "length ccw = bwdDist (length ?pts) s e - 1" by auto
  show ?thesis
  proof (cases "length cw \<le> length ccw")
    case True
    with assms(6) have "s < e" by simp
    then have "length cw = e - s - 1" using lcw by (simp add: fwdDist_def)
    with True \<open>s < e\<close> b show ?thesis
      using commitReplace_paths[OF assms(1-4)] by (simp add: spliceCW_take_drop)
  next
    case False
    with assms(6) have "e < s" by simp
    then have "length ccw = s - e - 1" using lccw by (simp add: bwdDist_def)
    with False \<open>e < s\<close> b show ?thesis
      using commitReplace_paths[OF assms(1-4)] by (simp add: spliceCCW_take_drop)
  qed
qed

text \<open>
  The worked example of the specification: boundary \<open>[A,B,C,D,E]\<close>, start anchor \<open>A\<close>,
  end anchor \<open>C\<close>, draft \<open>[X,Y]\<close>. The forward arc \<open>[B]\<close> is the shorter one and does
  not pass the end of the array; the committed boundary is \<open>[A,X,Y,C,D,E]\<close>.
\<close>

lemma commit_worked_example:
  "reduce [] (closedBoundary [vertex ''A'', vertex ''B'', vertex ''C'', vertex ''D'', vertex ''E'']
                (Some (replaceEdit [vertex ''X'', vertex ''Y''] ''A'' ''C''))) COMMIT_EDIT
     = Some (closedBoundary [vertex ''A'', vertex ''X'', vertex ''Y'', vertex ''C'',
                             vertex ''D'', vertex ''E''] None)"
  by (simp add: closedBoundary_def vertex_def createInitialState_def replaceEdit_def
      commitEdit_def commitReplace_def pathCW_def pathCCW_def walkCW.simps walkCCW.simps
      spliceCW_def spliceCCW_def)

text \<open>
  Claim C1 says that for every closed boundary of \<open>n \<ge> 3\<close> vertices and every pair of
  distinct anchors, \<^verbatim>\<open>COMMIT_EDIT\<close> keeps the anchors and the untouched arc, replaces the
  interior of the chosen arc with the draft points, and yields \<open>n - len(chosenArc) +
  len(draftPoints)\<close> vertices. The reducer does not do so when the chosen arc passes the
  end of the array. For the boundary \<open>[A,B,C]\<close> with start anchor \<open>C\<close>, end anchor \<open>A\<close>
  and draft \<open>[X]\<close>, the forward arc from \<open>C\<close> to \<open>A\<close> is empty and is chosen, so the
  claim gives the four vertices \<open>A,B,C,X\<close>; the two copy loops of the forward branch,
  \<^verbatim>\<open>0..startIdx\<close> and \<^verbatim>\<open>endIdx..n-1\<close>, each copy the whole array, and the reducer
  returns the seven vertices \<open>A,B,C,X,A,B,C\<close>.
\<close>

theorem C1_commit_wraparound_duplicates:
  "reduce [] (closedBoundary [vertex ''A'', vertex ''B'', vertex ''C'']
                (Some (replaceEdit [vertex ''X''] ''C'' ''A''))) COMMIT_EDIT
     = Some (closedBoundary [vertex ''A'', vertex ''B'', vertex ''C'', vertex ''X'',
                             vertex ''A'', vertex ''B'', vertex ''C''] None)
   \<and> pathCW 3 2 0 = Some [] \<and> pathCCW 3 2 0 = Some [1]"
  by (simp add: closedBoundary_def vertex_def createInitialState_def replaceEdit_def
      commitEdit_def commitReplace_def pathCW_def pathCCW_def walkCW.simps walkCCW.simps
      spliceCW_def spliceCCW_def)

text \<open>
  Claim C9: for every state holding a pending edit of type \<^verbatim>\<open>'add'\<close>, \<^verbatim>\<open>COMMIT_EDIT\<close>
  appends the draft points to the end of the boundary in order, sets \<^verbatim>\<open>isClosed\<close> to
  true whatever the number of vertices, and clears the pending edit.
\<close>

theorem C9_commit_draft:
  assumes "pendingEdit st = Some pe" "e_type pe = EditAdd"
  shows "reduce gid st COMMIT_EDIT =
           Some (st\<lparr>coastline := \<lparr>points = points (coastline st) @ e_points pe, isClosed = True\<rparr>,
                   pendingEdit := None\<rparr>)"
  using assms by (simp add: commitEdit_def)

text \<open>
  Committing the draft \<open>[X]\<close> on the open boundary \<open>[A]\<close> gives the closed boundary
  \<open>[A,X]\<close> of two vertices.
\<close>

theorem C9_commit_draft_witness:
  "pendingEdit (openBoundary [vertex ''A'']
       (Some \<lparr>e_type = EditAdd, e_points = [vertex ''X''], startAnchorId = None,
               endAnchorId = None, replacedPointIds = None\<rparr>))
     = Some \<lparr>e_type = EditAdd, e_points = [vertex ''X''], startAnchorId = None,
               endAnchorId = None, replacedPointIds = None\<rparr>
   \<and> reduce [] (openBoundary [vertex ''A'']
       (Some \<lparr>e_type = EditAdd, e_points = [vertex ''X''], startAnchorId = None,
               endAnchorId = None, replacedPointIds = None\<rparr>)) COMMIT_EDIT
     = Some (closedBoundary [vertex ''A'', vertex ''X''] None)"
  using C9_commit_draft[of "openBoundary [vertex ''A'']
       (Some \<lparr>e_type = EditAdd, e_points = [vertex ''X''], startAnchorId = None,
               endAnchorId = None, replacedPointIds = None\<rparr>)"
      "\<lparr>e_type = EditAdd, e_points = [vertex ''X''], startAnchorId = None,
               endAnchorId = None, replacedPointIds = None\<rparr>" "[]"]
  by (simp add: closedBoundary_def openBoundary_def vertex_def createInitialState_def)

text \<open>
  Claim C4 says that \<^verbatim>\<open>COMMIT_EDIT\<close> leaves the boundary unchanged for every pending edit
  that lacks an end anchor. A pending edit of type \<^verbatim>\<open>'add'\<close> has no end anchor, and
  committing it appends its points to the boundary.
\<close>

theorem C4_counterexample:
  "endAnchorId \<lparr>e_type = EditAdd, e_points = [vertex ''X''], startAnchorId = None,
                endAnchorId = None, replacedPointIds = None\<rparr> = None
   \<and> reduce [] (closedBoundary [vertex ''A'', vertex ''B'', vertex ''C'']
        (Some \<lparr>e_type = EditAdd, e_points = [vertex ''X''], startAnchorId = None,
                endAnchorId = None, replacedPointIds = None\<rparr>)) COMMIT_EDIT
       = Some (closedBoundary [vertex ''A'', vertex ''B'', vertex ''C'', vertex ''X''] None)
   \<and> points (coastline (closedBoundary [vertex ''A'', vertex ''B'', vertex ''C'', vertex ''X''] None))
       \<noteq> points (coastline (closedBoundary [vertex ''A'', vertex ''B'', vertex ''C'']
        (Some \<lparr>e_type = EditAdd, e_points = [vertex ''X''], startAnchorId = None,
                endAnchorId = None, replacedPointIds = None\<rparr>)))"
  by (simp add: closedBoundary_def vertex_def createInitialState_def commitEdit_def)

text \<open>
  Claim C4, amended: for every state holding a pending edit of type \<^verbatim>\<open>'replace'\<close> that
  has no end anchor, or whose start anchor or end anchor matches no vertex of the
  boundary, \<^verbatim>\<open>COMMIT_EDIT\<close> leaves the boundary unchanged and sets the pending edit to
  null.
\<close>

theorem C4_commit_discards_unresolved_replace:
  assumes "pendingEdit st = Some pe" "e_type pe = EditReplace"
    and "endAnchorId pe = None
         \<or> (\<forall>p\<in>set (points (coastline st)). Some (p_id p) \<noteq> startAnchorId pe)
         \<or> (\<forall>p\<in>set (points (coastline st)). Some (p_id p) \<noteq> endAnchorId pe)"
  shows "reduce gid st COMMIT_EDIT = Some (st\<lparr>pendingEdit := None\<rparr>)
         \<and> coastline (st\<lparr>pendingEdit := None\<rparr>) = coastline st
         \<and> pendingEdit (st\<lparr>pendingEdit := None\<rparr>) = None"
proof -
  have "commitEdit st = Some (st\<lparr>pendingEdit := None\<rparr>)"
  proof (cases "truthy (startAnchorId pe) \<and> truthy (endAnchorId pe)")
    case False
    with assms(1,2) show ?thesis by (auto simp: commitEdit_def)
  next
    case True
    then have "endAnchorId pe \<noteq> None" by (cases "endAnchorId pe") simp_all
    with assms(3) have "findIndex (\<lambda>p. Some (p_id p) = startAnchorId pe) (points (coastline st)) = None
       \<or> findIndex (\<lambda>p. Some (p_id p) = endAnchorId pe) (points (coastline st)) = None"
      by (simp add: findIndex_None)
    then have "commitReplace st pe = Some (st\<lparr>pendingEdit := None\<rparr>)"
      by (auto simp: commitReplace_def Let_def split: option.splits)
    with assms(1,2) True show ?thesis by (simp add: commitEdit_def)
  qed
  then show ?thesis by simp
qed

text \<open>
  A replacement edit on \<open>[A,B,C]\<close> with no end anchor, and one whose end anchor \<open>Z\<close>
  is no vertex of the boundary: both are discarded.
\<close>

theorem C4_commit_discards_unresolved_replace_witness:
  "pendingEdit (closedBoundary [vertex ''A'', vertex ''B'', vertex ''C'']
       (Some \<lparr>e_type = EditReplace, e_points = [vertex ''X''], startAnchorId = Some ''A'',
               endAnchorId = None, replacedPointIds = None\<rparr>))
     = Some \<lparr>e_type = EditReplace, e_points = [vertex ''X''], startAnchorId = Some ''A'',
               endAnchorId = None, replacedPointIds = None\<rparr>
   \<and> reduce [] (closedBoundary [vertex ''A'', vertex ''B'', vertex ''C'']
       (Some \<lparr>e_type = EditReplace, e_points = [vertex ''X''], startAnchorId = Some ''A'',
               endAnchorId = None, replacedPointIds = None\<rparr>)) COMMIT_EDIT
     = Some (closedBoundary [vertex ''A'', vertex ''B'', vertex ''C''] None)
   \<and> ''Z'' \<notin> p_id ` set [vertex ''A'', vertex ''B'', vertex ''C'']
   \<and> reduce [] (closedBoundary [vertex ''A'', vertex ''B'', vertex ''C'']
       (Some (replaceEdit [vertex ''X''] ''A'' ''Z''))) COMMIT_EDIT
     = Some (closedBoundary [vertex ''A'', vertex ''B'', vertex ''C''] None)"
  using C4_commit_discards_unresolved_replace[of
      "closedBoundary [vertex ''A'', vertex ''B'', vertex ''C'']
       (Some \<lparr>e_type = EditReplace, e_points = [vertex ''X''], startAnchorId = Some ''A'',
               endAnchorId = None, replacedPointIds = None\<rparr>)"
      "\<lparr>e_type = EditReplace, e_points = [vertex ''X''], startAnchorId = Some ''A'',
               endAnchorId = None, replacedPointIds = None\<rparr>" "[]"]
    C4_commit_discards_unresolved_replace[of
      "closedBoundary [vertex ''A'', vertex ''B'', vertex ''C'']
       (Some (replaceEdit [vertex ''X''] ''A'' ''Z''))"
      "replaceEdit [vertex ''X''] ''A'' ''Z''" "[]"]
  by (simp add: closedBoundary_def vertex_def createInitialState_def replaceEdit_def)

section \<open>Adding and removing vertices\<close>

text \<open>
  Claim C7: \<^verbatim>\<open>ADD_POINT\<close> on an open boundary appends exactly one vertex, carrying the
  generated id, to the end of the boundary and keeps it open; on a closed boundary with a
  pending edit it appends the vertex to the points of the pending edit and leaves the
  boundary as it is.
\<close>

theorem C7_add_point:
  "(\<not> isClosed (coastline st) \<longrightarrow>
      reduce gid st (ADD_POINT x y) =
        Some (st\<lparr>coastline := \<lparr>points = points (coastline st) @ [\<lparr>p_x = x, p_y = y, p_id = gid\<rparr>],
                                isClosed = False\<rparr>\<rparr>))
   \<and> (isClosed (coastline st) \<and> pendingEdit st = Some pe \<longrightarrow>
      reduce gid st (ADD_POINT x y) =
        Some (st\<lparr>pendingEdit := Some (pe\<lparr>e_points := e_points pe @ [\<lparr>p_x = x, p_y = y, p_id = gid\<rparr>]\<rparr>)\<rparr>)
      \<and> coastline (st\<lparr>pendingEdit := Some (pe\<lparr>e_points := e_points pe @ [\<lparr>p_x = x, p_y = y, p_id = gid\<rparr>]\<rparr>)\<rparr>)
          = coastline st)"
proof (intro conjI impI)
  assume op: "\<not> isClosed (coastline st)"
  have "(coastline st)\<lparr>points := points (coastline st) @ [\<lparr>p_x = x, p_y = y, p_id = gid\<rparr>]\<rparr>
        = \<lparr>points = points (coastline st) @ [\<lparr>p_x = x, p_y = y, p_id = gid\<rparr>], isClosed = False\<rparr>"
    using op by (cases "coastline st") simp
  then show "reduce gid st (ADD_POINT x y) =
        Some (st\<lparr>coastline := \<lparr>points = points (coastline st) @ [\<lparr>p_x = x, p_y = y, p_id = gid\<rparr>],
                                isClosed = False\<rparr>\<rparr>)"
    using op by simp
next
  assume "isClosed (coastline st) \<and> pendingEdit st = Some pe"
  then show "reduce gid st (ADD_POINT x y) =
        Some (st\<lparr>pendingEdit := Some (pe\<lparr>e_points := e_points pe @ [\<lparr>p_x = x, p_y = y, p_id = gid\<rparr>]\<rparr>)\<rparr>)"
    by simp
next
  show "coastline (st\<lparr>pendingEdit := Some (pe\<lparr>e_points := e_points pe @ [\<lparr>p_x = x, p_y = y, p_id = gid\<rparr>]\<rparr>)\<rparr>)
          = coastline st" by simp
qed

text \<open>
  \<^verbatim>\<open>ADD_POINT\<close> on the open boundary \<open>[A]\<close>, and on the closed boundary \<open>[A,B,C]\<close> with
  a pending replacement edit.
\<close>

theorem C7_add_point_witness:
  "\<not> isClosed (coastline (openBoundary [vertex ''A''] None))
   \<and> reduce ''g'' (openBoundary [vertex ''A''] None) (ADD_POINT 1 2)
     = Some (openBoundary [vertex ''A'', \<lparr>p_x = 1, p_y = 2, p_id = ''g''\<rparr>] None)
   \<and> isClosed (coastline (closedBoundary [vertex ''A'', vertex ''B'', vertex ''C'']
         (Some (replaceEdit [] ''A'' ''C''))))
   \<and> pendingEdit (closedBoundary [vertex ''A'', vertex ''B'', vertex ''C'']
         (Some (replaceEdit [] ''A'' ''C''))) = Some (replaceEdit [] ''A'' ''C'')
   \<and> reduce ''g'' (closedBoundary [vertex ''A'', vertex ''B'', vertex ''C'']
         (Some (replaceEdit [] ''A'' ''C''))) (ADD_POINT 1 2)
     = Some (closedBoundary [vertex ''A'', vertex ''B'', vertex ''C'']
         (Some (replaceEdit [\<lparr>p_x = 1, p_y = 2, p_id = ''g''\<rparr>] ''A'' ''C'')))"
  using C7_add_point[of "openBoundary [vertex ''A''] None" "''g''" 1 2 "replaceEdit [] ''A'' ''C''"]
    C7_add_point[of "closedBoundary [vertex ''A'', vertex ''B'', vertex ''C'']
         (Some (replaceEdit [] ''A'' ''C''))" "''g''" 1 2 "replaceEdit [] ''A'' ''C''"]
  by (simp add: closedBoundary_def openBoundary_def vertex_def createInitialState_def
      replaceEdit_def)

text \<open>
  Claim C8: on a closed boundary with no pending edit, \<^verbatim>\<open>ADD_POINT\<close> creates a pending
  edit of type \<^verbatim>\<open>'replace'\<close> that holds only the new vertex and has no start anchor;
  \<^verbatim>\<open>COMMIT_EDIT\<close> on the resulting state discards that edit and returns to the state
  before the \<^verbatim>\<open>ADD_POINT\<close>.
\<close>

theorem C8_add_point_closed_no_edit:
  assumes "isClosed (coastline st)" "pendingEdit st = None"
  shows "reduce gid st (ADD_POINT x y) =
           Some (st\<lparr>pendingEdit := Some \<lparr>e_type = EditReplace,
                     e_points = [\<lparr>p_x = x, p_y = y, p_id = gid\<rparr>], startAnchorId = None,
                     endAnchorId = None, replacedPointIds = None\<rparr>\<rparr>)
         \<and> reduce gid' (st\<lparr>pendingEdit := Some \<lparr>e_type = EditReplace,
                     e_points = [\<lparr>p_x = x, p_y = y, p_id = gid\<rparr>], startAnchorId = None,
                     endAnchorId = None, replacedPointIds = None\<rparr>\<rparr>) COMMIT_EDIT = Some st"
  using assms by (simp add: commitEdit_def pendingEdit_None_idem)

text \<open>
  \<^verbatim>\<open>ADD_POINT\<close> on the closed boundary \<open>[A,B,C]\<close> with no pending edit, then
  \<^verbatim>\<open>COMMIT_EDIT\<close>.
\<close>

theorem C8_add_point_closed_no_edit_witness:
  "isClosed (coastline (closedBoundary [vertex ''A'', vertex ''B'', vertex ''C''] None))
   \<and> pendingEdit (closedBoundary [vertex ''A'', vertex ''B'', vertex ''C''] None) = None
   \<and> reduce ''g'' (closedBoundary [vertex ''A'', vertex ''B'', vertex ''C''] None) (ADD_POINT 1 2)
     = Some (closedBoundary [vertex ''A'', vertex ''B'', vertex ''C'']
         (Some \<lparr>e_type = EditReplace, e_points = [\<lparr>p_x = 1, p_y = 2, p_id = ''g''\<rparr>],
                 startAnchorId = None, endAnchorId = None, replacedPointIds = None\<rparr>))
   \<and> reduce [] (closedBoundary [vertex ''A'', vertex ''B'', vertex ''C'']
         (Some \<lparr>e_type = EditReplace, e_points = [\<lparr>p_x = 1, p_y = 2, p_id = ''g''\<rparr>],
                 startAnchorId = None, endAnchorId = None, replacedPointIds = None\<rparr>)) COMMIT_EDIT
     = Some (closedBoundary [vertex ''A'', vertex ''B'', vertex ''C''] None)"
  using C8_add_point_closed_no_edit[of "closedBoundary [vertex ''A'', vertex ''B'', vertex ''C''] None"
      "''g''" 1 2 "[]"]
  by (simp add: closedBoundary_def vertex_def createInitialState_def)

text \<open>
  Claim C3 says that \<^verbatim>\<open>REMOVE_POINT\<close> leaves a boundary of at most three vertices
  unchanged. The reducer has no such guard: from \<open>[A,B,C]\<close> it removes \<open>A\<close>.
\<close>

theorem C3_counterexample:
  "length (points (coastline (closedBoundary [vertex ''A'', vertex ''B'', vertex ''C''] None))) \<le> 3
   \<and> reduce [] (closedBoundary [vertex ''A'', vertex ''B'', vertex ''C''] None) (REMOVE_POINT ''A'')
       = Some (closedBoundary [vertex ''B'', vertex ''C''] None)
   \<and> points (coastline (closedBoundary [vertex ''B'', vertex ''C''] None))
       \<noteq> points (coastline (closedBoundary [vertex ''A'', vertex ''B'', vertex ''C''] None))"
  by (simp add: closedBoundary_def vertex_def createInitialState_def)

text \<open>
  Claim C3, amended: the reducer's \<^verbatim>\<open>REMOVE_POINT\<close> removes every vertex that carries the
  id, at any length of the boundary. The rejection at three vertices or fewer is made by
  the caller \<^verbatim>\<open>handleRemoveModeClick\<close>, which then dispatches nothing and leaves the
  store unchanged, and which dispatches \<^verbatim>\<open>REMOVE_POINT\<close> for the clicked vertex otherwise.
  For a boundary of more than three vertices with pairwise distinct ids and an id present
  in it, \<^verbatim>\<open>REMOVE_POINT\<close> removes that vertex and shortens the boundary by exactly one.
\<close>

theorem C3_remove_point:
  "reduce gid st (REMOVE_POINT pointId) =
     Some (st\<lparr>coastline := (coastline st)
             \<lparr>points := filter (\<lambda>p. p_id p \<noteq> pointId) (points (coastline st))\<rparr>\<rparr>)
   \<and> (length (points (coastline (state store))) \<le> 3 \<longrightarrow>
        handleRemoveModeClick gid clicked store = Some store)
   \<and> (3 < length (points (coastline (state store))) \<longrightarrow>
        handleRemoveModeClick gid (Some p) store = dispatch gid (REMOVE_POINT (p_id p)) store)
   \<and> (3 < length (points (coastline st)) \<and> distinct (map p_id (points (coastline st)))
        \<and> pointId \<in> p_id ` set (points (coastline st)) \<longrightarrow>
        length (filter (\<lambda>p. p_id p \<noteq> pointId) (points (coastline st)))
          = length (points (coastline st)) - 1
        \<and> pointId \<notin> p_id ` set (filter (\<lambda>p. p_id p \<noteq> pointId) (points (coastline st))))"
  by (auto simp: handleRemoveModeClick_def filter_distinct_length split: option.splits)

text \<open>
  On \<open>[A,B,C]\<close> the click handler leaves the store as it is; on \<open>[A,B,C,D]\<close> it
  dispatches \<^verbatim>\<open>REMOVE_POINT\<close>, and the reducer removes \<open>B\<close>.
\<close>

theorem C3_remove_point_witness:
  "length (points (coastline (state (storeOf (closedBoundary [vertex ''A'', vertex ''B'', vertex ''C''] None) [])))) \<le> 3
   \<and> handleRemoveModeClick [] (Some (vertex ''A''))
        (storeOf (closedBoundary [vertex ''A'', vertex ''B'', vertex ''C''] None) [])
      = Some (storeOf (closedBoundary [vertex ''A'', vertex ''B'', vertex ''C''] None) [])
   \<and> 3 < length (points (coastline (closedBoundary [vertex ''A'', vertex ''B'', vertex ''C'', vertex ''D''] None)))
   \<and> distinct (map p_id (points (coastline (closedBoundary [vertex ''A'', vertex ''B'', vertex ''C'', vertex ''D''] None))))
   \<and> ''B'' \<in> p_id ` set (points (coastline (closedBoundary [vertex ''A'', vertex ''B'', vertex ''C'', vertex ''D''] None)))
   \<and> reduce [] (closedBoundary [vertex ''A'', vertex ''B'', vertex ''C'', vertex ''D''] None)
        (REMOVE_POINT ''B'')
      = Some (closedBoundary [vertex ''A'', vertex ''C'', vertex ''D''] None)
   \<and> handleRemoveModeClick [] (Some (vertex ''B''))
        (storeOf (closedBoundary [vertex ''A'', vertex ''B'', vertex ''C'', vertex ''D''] None) [])
      = dispatch [] (REMOVE_POINT ''B'')
        (storeOf (closedBoundary [vertex ''A'', vertex ''B'', vertex ''C'', vertex ''D''] None) [])"
  using C3_remove_point[of "[]" "closedBoundary [vertex ''A'', vertex ''B'', vertex ''C'', vertex ''D''] None"
      "''B''" "storeOf (closedBoundary [vertex ''A'', vertex ''B'', vertex ''C''] None) []"
      "Some (vertex ''A'')" "vertex ''A''"]
    C3_remove_point[of "[]" "closedBoundary [vertex ''A'', vertex ''B'', vertex ''C'', vertex ''D''] None"
      "''B''" "storeOf (closedBoundary [vertex ''A'', vertex ''B'', vertex ''C'', vertex ''D''] None) []"
      "Some (vertex ''B'')" "vertex ''B''"]
  by (simp add: closedBoundary_def vertex_def createInitialState_def storeOf_def)

section \<open>Determinism of the reducer\<close>

text \<open>
  Claim C6 says that two runs of the reducer from equal states with the same action type
  and equal payloads give equal states. \<^verbatim>\<open>ADD_POINT\<close> stores the id that
  \<^verbatim>\<open>generateId()\<close> draws from \<^verbatim>\<open>Math.random()\<close>, so two runs that draw different ids
  give different states.
\<close>

theorem C6_counterexample:
  "reduce ''a'' createInitialState (ADD_POINT 0 0) \<noteq> reduce ''b'' createInitialState (ADD_POINT 0 0)"
  by (simp add: createInitialState_def)

text \<open>
  How the result depends on the generated id: a case that calls \<^verbatim>\<open>generateId()\<close> gives
  equal states only for equal ids, any other case ignores the id, and in every case the
  state reached with one id is the state reached with another id once the id of the
  appended element is replaced.
\<close>

lemma renewLast_snoc: "renewLast f (vs @ [v]) = vs @ [f v]"
  by (simp add: renewLast_def)

lemma reduce_id_generating:
  assumes "generatesId a"
  shows "(reduce gid1 st a = reduce gid2 st a) = (gid1 = gid2)"
proof
  assume eq: "reduce gid1 st a = reduce gid2 st a"
  let ?ids = "\<lambda>s. (map p_id (points (coastline s)),
                    map_option (\<lambda>pe. map p_id (e_points pe)) (pendingEdit s),
                    map t_id (towers_of (towers s)),
                    map s_id (settlements_of (settlements s)),
                    map r_id (roads_of (roads s)))"
  from eq have "map_option ?ids (reduce gid1 st a) = map_option ?ids (reduce gid2 st a)"
    by (rule arg_cong)
  with assms show "gid1 = gid2"
    by (cases a) (simp_all add: Let_def split: if_splits)
next
  assume "gid1 = gid2"
  then show "reduce gid1 st a = reduce gid2 st a" by simp
qed

lemma reduce_id_free:
  assumes "\<not> generatesId a"
  shows "reduce gid1 st a = reduce gid2 st a"
  using assms by (cases a) simp_all

lemma reduce_setNewId:
  "reduce gid2 st a = map_option (setNewId a gid2) (reduce gid1 st a)"
proof (cases "generatesId a")
  case False
  obtain s1 where "reduce gid1 st a = Some s1" using reduce_total by blast
  moreover from False have "setNewId a gid2 s1 = s1" by (cases a) simp_all
  ultimately show ?thesis using reduce_id_free[OF False, of gid2 st gid1] by simp
next
  case True
  then show ?thesis
    by (cases a) (auto simp: Let_def renewLast_snoc split: option.splits)
qed

text \<open>
  Claim C6, amended: two runs of the reducer from equal states with the same action type
  and equal payloads give equal states if and only if the action is none of
  \<^verbatim>\<open>ADD_POINT\<close>, \<^verbatim>\<open>ADD_TOWER\<close>, \<^verbatim>\<open>ADD_SETTLEMENT\<close> and \<^verbatim>\<open>ADD_ROAD\<close>, or
  \<^verbatim>\<open>generateId()\<close> returns the same id in both runs; and the two resulting states differ
  in nothing but the id of the element that the action appended.
\<close>

theorem C6_reduce_deterministic_up_to_id:
  "(reduce gid1 st a = reduce gid2 st a) = (generatesId a \<longrightarrow> gid1 = gid2)
   \<and> reduce gid2 st a = map_option (setNewId a gid2) (reduce gid1 st a)"
proof (intro conjI)
  show "(reduce gid1 st a = reduce gid2 st a) = (generatesId a \<longrightarrow> gid1 = gid2)"
    using reduce_id_generating[of a gid1 st gid2] reduce_id_free[of a gid1 st gid2] by blast
  show "reduce gid2 st a = map_option (setNewId a gid2) (reduce gid1 st a)"
    by (rule reduce_setNewId)
qed

text \<open>
  \<^verbatim>\<open>REMOVE_POINT\<close> gives the same state for the ids \<open>a\<close> and \<open>b\<close>; \<^verbatim>\<open>ADD_POINT\<close> on the
  open boundary \<open>[A]\<close> gives two different states for them, which differ in the id of the
  appended vertex only.
\<close>

theorem C6_reduce_deterministic_up_to_id_witness:
  "\<not> generatesId (REMOVE_POINT ''A'')
   \<and> reduce ''a'' (closedBoundary [vertex ''A'', vertex ''B'', vertex ''C'', vertex ''D''] None)
        (REMOVE_POINT ''A'')
     = reduce ''b'' (closedBoundary [vertex ''A'', vertex ''B'', vertex ''C'', vertex ''D''] None)
        (REMOVE_POINT ''A'')
   \<and> generatesId (ADD_POINT 1 2) \<and> ''a'' \<noteq> ''b''
   \<and> reduce ''a'' (openBoundary [vertex ''A''] None) (ADD_POINT 1 2)
     \<noteq> reduce ''b'' (openBoundary [vertex ''A''] None) (ADD_POINT 1 2)
   \<and> reduce ''a'' (openBoundary [vertex ''A''] None) (ADD_POINT 1 2)
     = Some (openBoundary [vertex ''A'', \<lparr>p_x = 1, p_y = 2, p_id = ''a''\<rparr>] None)
   \<and> reduce ''b'' (openBoundary [vertex ''A''] None) (ADD_POINT 1 2)
     = Some (setNewId (ADD_POINT 1 2) ''b''
               (openBoundary [vertex ''A'', \<lparr>p_x = 1, p_y = 2, p_id = ''a''\<rparr>] None))
   \<and> setNewId (ADD_POINT 1 2) ''b''
         (openBoundary [vertex ''A'', \<lparr>p_x = 1, p_y = 2, p_id = ''a''\<rparr>] None)
     = openBoundary [vertex ''A'', \<lparr>p_x = 1, p_y = 2, p_id = ''b''\<rparr>] None"
proof -
  let ?s4 = "closedBoundary [vertex ''A'', vertex ''B'', vertex ''C'', vertex ''D''] None"
  let ?s1 = "openBoundary [vertex ''A''] None"
  note r = C6_reduce_deterministic_up_to_id[of "''a''" ?s4 "REMOVE_POINT ''A''" "''b''"]
  note p = C6_reduce_deterministic_up_to_id[of "''a''" ?s1 "ADD_POINT 1 2" "''b''"]
  have g1: "\<not> generatesId (REMOVE_POINT ''A'')" by simp
  have g2: "generatesId (ADD_POINT 1 2)" "''a'' \<noteq> ''b''" by simp_all
  from r g1 have k1: "reduce ''a'' ?s4 (REMOVE_POINT ''A'') = reduce ''b'' ?s4 (REMOVE_POINT ''A'')"
    by blast
  from p g2 have k2: "reduce ''a'' ?s1 (ADD_POINT 1 2) \<noteq> reduce ''b'' ?s1 (ADD_POINT 1 2)"
    by blast
  have k3: "reduce ''a'' ?s1 (ADD_POINT 1 2)
     = Some (openBoundary [vertex ''A'', \<lparr>p_x = 1, p_y = 2, p_id = ''a''\<rparr>] None)"
    by (simp add: openBoundary_def vertex_def createInitialState_def)
  from p k3 have k4: "reduce ''b'' ?s1 (ADD_POINT 1 2)
     = Some (setNewId (ADD_POINT 1 2) ''b''
               (openBoundary [vertex ''A'', \<lparr>p_x = 1, p_y = 2, p_id = ''a''\<rparr>] None))"
    by simp
  have k5: "setNewId (ADD_POINT 1 2) ''b''
         (openBoundary [vertex ''A'', \<lparr>p_x = 1, p_y = 2, p_id = ''a''\<rparr>] None)
     = openBoundary [vertex ''A'', \<lparr>p_x = 1, p_y = 2, p_id = ''b''\<rparr>] None"
    by (simp add: openBoundary_def vertex_def createInitialState_def renewLast_def)
  show ?thesis using g1 g2 k1 k2 k3 k4 k5 by simp
qed

section \<open>Dispatch, undo and the bounded history\<close>

lemma dispatch_pushes:
  assumes "actionType a \<noteq> ''UNDO''"
  shows "\<exists>nxt. reduce gid (state store) a = Some nxt
     \<and> dispatch gid a store =
         Some (store\<lparr>state := nxt, history := pushHistory (history store) (state store),
                 delivered := notify store
                   \<lparr>ev_action = a, previousState = state store, newState = nxt\<rparr>\<rparr>)"
proof -
  from reduce_total obtain nxt where "reduce gid (state store) a = Some nxt" by blast
  with assms show ?thesis by (simp add: dispatch_def deepClone_def Let_def)
qed

lemma pushHistory_eq:
  "pushHistory h v = (if length h < maxHistory then h @ [v] else tl h @ [v])"
  by (cases h) (auto simp: pushHistory_def maxHistory_def)

lemma pushHistory_drop:
  "pushHistory h v = drop (evicted (length h) 1) (h @ [v])"
  by (cases h) (auto simp: pushHistory_def evicted_def maxHistory_def)

lemma length_pushHistory:
  "length (pushHistory h v) = (if length h < maxHistory then length h + 1 else length h)"
  by (cases h) (auto simp: pushHistory_def maxHistory_def)

lemma evicted_step:
  "evicted (length (pushHistory h v)) k + evicted (length h) 1 = evicted (length h) (Suc k)"
  unfolding length_pushHistory evicted_def maxHistory_def by (simp split: if_splits) arith

lemma dispatchAll_history:
  assumes "\<forall>ga\<in>set acts. actionType (snd ga) \<noteq> ''UNDO''"
  shows "\<exists>store' pre. dispatchAll acts store = Some store' \<and> length pre = length acts
     \<and> (acts \<noteq> [] \<longrightarrow> hd pre = state store)
     \<and> history store' = drop (evicted (length (history store)) (length acts)) (history store @ pre)"
  using assms
proof (induction acts arbitrary: store)
  case Nil
  show ?case by (simp add: evicted_def maxHistory_def)
next
  case (Cons ga rest)
  let ?h = "history store"
  from Cons.prems have nu: "actionType (snd ga) \<noteq> ''UNDO''" by simp
  from dispatch_pushes[OF nu, of "fst ga" store] obtain store1 where
    d: "dispatch (fst ga) (snd ga) store = Some store1"
    and h1: "history store1 = pushHistory ?h (state store)" by force
  from Cons.prems have "\<forall>ga\<in>set rest. actionType (snd ga) \<noteq> ''UNDO''" by simp
  from Cons.IH[OF this, of store1] obtain store' pre where
    r: "dispatchAll rest store1 = Some store'" "length pre = length rest"
    and hr: "history store' = drop (evicted (length (history store1)) (length rest)) (history store1 @ pre)"
    by blast
  have j0: "evicted (length ?h) 1 \<le> length ?h"
    by (simp add: evicted_def maxHistory_def)
  have "history store' = drop (evicted (length (pushHistory ?h (state store))) (length rest))
          (drop (evicted (length ?h) 1) (?h @ [state store]) @ pre)"
    using hr h1 by (simp add: pushHistory_drop)
  also have "drop (evicted (length ?h) 1) (?h @ [state store]) @ pre
        = drop (evicted (length ?h) 1) (?h @ (state store # pre))"
    using j0 by simp
  also have "drop (evicted (length (pushHistory ?h (state store))) (length rest))
          (drop (evicted (length ?h) 1) (?h @ (state store # pre)))
        = drop (evicted (length ?h) (Suc (length rest))) (?h @ (state store # pre))"
    by (simp only: drop_drop evicted_step)
  finally have hh: "history store'
        = drop (evicted (length ?h) (length (ga # rest))) (?h @ (state store # pre))" by simp
  have "dispatchAll (ga # rest) store = Some store'" using d r(1) by simp
  moreover have "length (state store # pre) = length (ga # rest)" using r(2) by simp
  moreover have "hd (state store # pre) = state store" by simp
  ultimately show ?case using hh by blast
qed

lemma undo_nonempty:
  "history store \<noteq> [] \<Longrightarrow>
   undo store = (True, store\<lparr>state := last (history store), history := butlast (history store),
       delivered := notify store
         \<lparr>ev_action = UNDO, previousState = state store, newState = last (history store)\<rparr>\<rparr>)"
  by (simp add: undo_def Let_def)

lemma undo_empty: "history store = [] \<Longrightarrow> undo store = (False, store)"
  by (simp add: undo_def)

lemma undoN_history:
  "k \<le> length (history store) \<Longrightarrow>
   fst (undoN k store) = replicate k True
   \<and> history (snd (undoN k store)) = take (length (history store) - k) (history store)
   \<and> state (snd (undoN k store))
       = (if k = 0 then state store else history store ! (length (history store) - k))"
proof (induction k arbitrary: store)
  case 0
  show ?case by simp
next
  case (Suc k)
  let ?h = "history store"
  from Suc.prems have ne: "?h \<noteq> []" by auto
  let ?s1 = "snd (undo store)"
  have u: "fst (undo store) = True" "history ?s1 = butlast ?h" "state ?s1 = last ?h"
    using undo_nonempty[OF ne] by simp_all
  have k: "k \<le> length (history ?s1)" using Suc.prems u(2) by simp
  note ih = Suc.IH[OF k]
  have a: "fst (undoN (Suc k) store) = replicate (Suc k) True"
    using ih u(1) by (simp add: Let_def)
  have b: "history (snd (undoN (Suc k) store)) = take (length ?h - Suc k) ?h"
    using ih u(2) by (simp add: Let_def butlast_conv_take)
  have c: "state (snd (undoN (Suc k) store)) = ?h ! (length ?h - Suc k)"
  proof (cases "k = 0")
    case True
    then show ?thesis using u(3) ne by (simp add: Let_def last_conv_nth)
  next
    case False
    then have "state (snd (undoN (Suc k) store)) = butlast ?h ! (length (butlast ?h) - k)"
      using ih u(2) by (simp add: Let_def)
    also have "\<dots> = ?h ! (length ?h - Suc k)"
      using False Suc.prems by (simp add: nth_butlast)
    finally show ?thesis .
  qed
  show ?case using a b c by simp
qed

lemma undo_restores:
  assumes "length acts \<le> maxHistory" "\<forall>ga\<in>set acts. actionType (snd ga) \<noteq> ''UNDO''"
  shows "\<exists>store'. dispatchAll acts store = Some store'
     \<and> fst (undoN (length acts) store') = replicate (length acts) True
     \<and> state (snd (undoN (length acts) store')) = state store
     \<and> length (history store') \<ge> length acts"
proof -
  let ?h = "history store" and ?k = "length acts"
  from dispatchAll_history[OF assms(2), of store] obtain store' pre where
    d: "dispatchAll acts store = Some store'" and lp: "length pre = ?k"
    and hp: "acts \<noteq> [] \<longrightarrow> hd pre = state store"
    and hh: "history store' = drop (evicted (length ?h) ?k) (?h @ pre)" by blast
  have ev: "evicted (length ?h) ?k \<le> length ?h"
    using assms(1) unfolding evicted_def by (simp split: if_splits) arith
  have len: "length (history store') = length ?h + ?k - evicted (length ?h) ?k"
    using hh lp by simp
  have kl: "?k \<le> length (history store')" using len ev by simp
  note u = undoN_history[OF kl]
  have "state (snd (undoN ?k store')) = state store"
  proof (cases "acts = []")
    case True
    with d show ?thesis by simp
  next
    case False
    then have k0: "?k \<noteq> 0" by simp
    from False lp have pne: "pre \<noteq> []" by auto
    have idx: "length (history store') - ?k = length ?h - evicted (length ?h) ?k"
      using len ev by simp
    have "state (snd (undoN ?k store')) = history store' ! (length (history store') - ?k)"
      using u k0 by simp
    also have "\<dots> = history store' ! (length ?h - evicted (length ?h) ?k)"
      by (simp only: idx)
    also have "\<dots> = drop (evicted (length ?h) ?k) (?h @ pre) ! (length ?h - evicted (length ?h) ?k)"
      by (simp only: hh)
    also have "\<dots> = (?h @ pre) ! (evicted (length ?h) ?k + (length ?h - evicted (length ?h) ?k))"
      using ev by (intro nth_drop) simp
    also have "evicted (length ?h) ?k + (length ?h - evicted (length ?h) ?k) = length ?h"
      using ev by simp
    also have "(?h @ pre) ! length ?h = hd pre" using pne by (simp add: hd_conv_nth nth_append)
    finally show ?thesis using hp False by simp
  qed
  with d u kl show ?thesis by blast
qed

lemma move_unknown_id:
  "\<forall>p\<in>set pts. p_id p \<noteq> i \<Longrightarrow> map (\<lambda>p. if p_id p = i then p\<lparr>p_x := x, p_y := y\<rparr> else p) pts = pts"
  by (induction pts) simp_all

lemma coastline_points_idem: "st\<lparr>coastline := (coastline st)\<lparr>points := points (coastline st)\<rparr>\<rparr> = st"
  by (cases st) simp

text \<open>The history of a store never holds more than \<open>maxHistory\<close> entries.\<close>

lemma newAppState_history_bound: "length (history newAppState) \<le> maxHistory"
  by (simp add: newAppState_def)

lemma dispatch_history_bound:
  "length (history store) \<le> maxHistory \<Longrightarrow> dispatch gid a store = Some store' \<Longrightarrow>
   length (history store') \<le> maxHistory"
  by (auto simp: dispatch_def Let_def length_pushHistory split: option.splits if_splits)

lemma undo_history_bound:
  "length (history store) \<le> maxHistory \<Longrightarrow> length (history (snd (undo store))) \<le> maxHistory"
  by (auto simp: undo_def Let_def)

text \<open>
  Claim C5 says that for any \<open>k \<le> 50\<close>, after \<open>k\<close> further dispatches, \<open>k\<close> undos
  restore the state that was current before them. A dispatch of type \<^verbatim>\<open>UNDO\<close> pushes
  nothing onto the history, so the undo that follows it pops an older entry: from a new
  store, dispatch \<^verbatim>\<open>SET_BACKGROUND_VISIBLE\<close> with \<^verbatim>\<open>false\<close>; one further dispatch, of
  type \<^verbatim>\<open>UNDO\<close>, leaves the store as it is, and one undo then returns true and restores
  the initial state, not the state before that dispatch.
\<close>

theorem C5_counterexample:
  "dispatchAll [([], SET_BACKGROUND_VISIBLE False)] newAppState
     = Some (storeOf (createInitialState\<lparr>isBackgroundVisible := False\<rparr>) [createInitialState]\<lparr>listeners := []\<rparr>)
   \<and> dispatchAll [([], UNDO)]
        (storeOf (createInitialState\<lparr>isBackgroundVisible := False\<rparr>) [createInitialState]\<lparr>listeners := []\<rparr>)
     = Some (storeOf (createInitialState\<lparr>isBackgroundVisible := False\<rparr>) [createInitialState]\<lparr>listeners := []\<rparr>)
   \<and> fst (undoN 1 (storeOf (createInitialState\<lparr>isBackgroundVisible := False\<rparr>) [createInitialState]\<lparr>listeners := []\<rparr>)) = [True]
   \<and> state (snd (undoN 1 (storeOf (createInitialState\<lparr>isBackgroundVisible := False\<rparr>) [createInitialState]\<lparr>listeners := []\<rparr>)))
      \<noteq> state (storeOf (createInitialState\<lparr>isBackgroundVisible := False\<rparr>) [createInitialState]\<lparr>listeners := []\<rparr>)"
  by (simp add: newAppState_def storeOf_def dispatch_def deepClone_def pushHistory_def
      maxHistory_def notify_def undo_def createInitialState_def Let_def)

text \<open>
  Claim C5, amended: \<^verbatim>\<open>undo()\<close> returns false and changes nothing when the history is
  empty; otherwise it pops the most recent history entry, restores it as the current
  state, notifies the subscribers and returns true. For any \<open>k \<le> 50\<close>, after \<open>k\<close>
  further dispatches whose action type is not \<^verbatim>\<open>UNDO\<close>, \<open>k\<close> consecutive undos all
  return true and restore the exact state that was current before those dispatches. After
  51 consecutive such dispatches on a store whose history is within its bound, the
  history holds 50 entries, 50 undos lead back to the state after the first of the 51
  dispatches, and the next undo returns false: the state from before all 51 is no longer
  reached by undo.
\<close>

theorem C5_undo_and_history:
  "(history store = [] \<longrightarrow> undo store = (False, store))
   \<and> (history store \<noteq> [] \<longrightarrow>
        undo store = (True, store\<lparr>state := last (history store),
           history := butlast (history store),
           delivered := delivered store @ map (\<lambda>listener. (listener,
              \<lparr>ev_action = UNDO, previousState = state store,
               newState = last (history store)\<rparr>)) (listeners store)\<rparr>))
   \<and> (length acts \<le> 50 \<and> (\<forall>ga\<in>set acts. actionType (snd ga) \<noteq> ''UNDO'') \<longrightarrow>
        (\<exists>store'. dispatchAll acts store = Some store'
           \<and> fst (undoN (length acts) store') = replicate (length acts) True
           \<and> state (snd (undoN (length acts) store')) = state store))
   \<and> (length (history store) \<le> 50 \<and> length rest = 50
        \<and> (\<forall>ga\<in>set (ga0 # rest). actionType (snd ga) \<noteq> ''UNDO'') \<longrightarrow>
        (\<exists>store1 store'. dispatch (fst ga0) (snd ga0) store = Some store1
           \<and> dispatchAll (ga0 # rest) store = Some store'
           \<and> length (history store') = 50
           \<and> fst (undoN 50 store') = replicate 50 True
           \<and> state (snd (undoN 50 store')) = state store1
           \<and> history (snd (undoN 50 store')) = []
           \<and> undo (snd (undoN 50 store')) = (False, snd (undoN 50 store'))))"
proof (intro conjI impI)
  assume "history store = []"
  then show "undo store = (False, store)" by (rule undo_empty)
next
  assume "history store \<noteq> []"
  from undo_nonempty[OF this]
  show "undo store = (True, store\<lparr>state := last (history store),
           history := butlast (history store),
           delivered := delivered store @ map (\<lambda>listener. (listener,
              \<lparr>ev_action = UNDO, previousState = state store,
               newState = last (history store)\<rparr>)) (listeners store)\<rparr>)"
    by (simp add: notify_def)
next
  assume a: "length acts \<le> 50 \<and> (\<forall>ga\<in>set acts. actionType (snd ga) \<noteq> ''UNDO'')"
  then have "length acts \<le> maxHistory" by (simp add: maxHistory_def)
  from undo_restores[OF this, of store] a
  show "\<exists>store'. dispatchAll acts store = Some store'
           \<and> fst (undoN (length acts) store') = replicate (length acts) True
           \<and> state (snd (undoN (length acts) store')) = state store" by blast
next
  assume a: "length (history store) \<le> 50 \<and> length rest = 50
        \<and> (\<forall>ga\<in>set (ga0 # rest). actionType (snd ga) \<noteq> ''UNDO'')"
  then have nu0: "actionType (snd ga0) \<noteq> ''UNDO''"
    and nur: "\<forall>ga\<in>set rest. actionType (snd ga) \<noteq> ''UNDO''" by simp_all
  from dispatch_pushes[OF nu0, of "fst ga0" store] obtain store1 where
    d: "dispatch (fst ga0) (snd ga0) store = Some store1"
    and h1: "history store1 = pushHistory (history store) (state store)" by force
  have lr: "length rest \<le> maxHistory" using a by (simp add: maxHistory_def)
  from undo_restores[OF lr nur, of store1] obtain store' where
    r: "dispatchAll rest store1 = Some store'"
      "fst (undoN (length rest) store') = replicate (length rest) True"
      "state (snd (undoN (length rest) store')) = state store1"
      "length rest \<le> length (history store')" by blast
  from dispatchAll_history[OF nur, of store1] r(1) obtain pre where
    lp: "length pre = length rest"
    and hh: "history store' = drop (evicted (length (history store1)) (length rest)) (history store1 @ pre)"
    by auto
  have l1: "length (history store1) \<le> 50" "1 \<le> length (history store1)"
    using a h1 by (simp_all add: length_pushHistory maxHistory_def)
  have len: "length (history store') = 50"
    using hh lp a l1 by (simp add: evicted_def maxHistory_def split: if_splits)
  have all: "dispatchAll (ga0 # rest) store = Some store'" using d r(1) by simp
  have k: "50 \<le> length (history store')" using len by simp
  from undoN_history[OF k] len have he: "history (snd (undoN 50 store')) = []" by simp
  have "undo (snd (undoN 50 store')) = (False, snd (undoN 50 store'))"
    using he by (rule undo_empty)
  with d all len r(2,3) he a
  show "\<exists>store1 store'. dispatch (fst ga0) (snd ga0) store = Some store1
           \<and> dispatchAll (ga0 # rest) store = Some store'
           \<and> length (history store') = 50
           \<and> fst (undoN 50 store') = replicate 50 True
           \<and> state (snd (undoN 50 store')) = state store1
           \<and> history (snd (undoN 50 store')) = []
           \<and> undo (snd (undoN 50 store')) = (False, snd (undoN 50 store'))"
    by auto
qed

text \<open>
  A new store has an empty history and rejects an undo; two dispatches on it are undone
  by two undos; after 51 dispatches, 50 undos lead to the state after the first dispatch
  and the next undo returns false.
\<close>

theorem C5_undo_and_history_witness:
  "history newAppState = [] \<and> undo newAppState = (False, newAppState)
   \<and> history (storeOf (openBoundary [] None) [createInitialState]) \<noteq> []
   \<and> fst (undo (storeOf (openBoundary [] None) [createInitialState])) = True
   \<and> state (snd (undo (storeOf (openBoundary [] None) [createInitialState]))) = createInitialState
   \<and> length [(''g'', ADD_POINT 1 2), ([], CLOSE_COASTLINE)] \<le> 50
   \<and> (\<exists>store'. dispatchAll [(''g'', ADD_POINT 1 2), ([], CLOSE_COASTLINE)] newAppState = Some store'
         \<and> state store' = closedBoundary [\<lparr>p_x = 1, p_y = 2, p_id = ''g''\<rparr>] None
         \<and> fst (undoN 2 store') = [True, True]
         \<and> state (snd (undoN 2 store')) = state newAppState)
   \<and> length (replicate 50 ([], CLOSE_COASTLINE)) = 50
   \<and> (\<exists>store1 store'. dispatch ''g'' (ADD_POINT 1 2) newAppState = Some store1
         \<and> state store1 = openBoundary [\<lparr>p_x = 1, p_y = 2, p_id = ''g''\<rparr>] None
         \<and> dispatchAll ((''g'', ADD_POINT 1 2) # replicate 50 ([], CLOSE_COASTLINE)) newAppState
             = Some store'
         \<and> length (history store') = 50
         \<and> state (snd (undoN 50 store')) = state store1
         \<and> undo (snd (undoN 50 store')) = (False, snd (undoN 50 store')))"
proof -
  let ?acts = "[(''g'', ADD_POINT 1 2), ([], CLOSE_COASTLINE)]"
  let ?rest = "replicate 50 (([]::string), CLOSE_COASTLINE)"
  let ?ga0 = "(''g'', ADD_POINT 1 2)"
  let ?s1 = "storeOf (openBoundary [] None) [createInitialState]"
  note c5 = C5_undo_and_history[where store = newAppState and acts = ?acts and rest = ?rest
      and ?ga0.0 = ?ga0]
  have a1: "history newAppState = []" by (simp add: newAppState_def)
  from c5 a1 have u0: "undo newAppState = (False, newAppState)" by blast
  have a2: "history ?s1 \<noteq> []" by (simp add: storeOf_def)
  from C5_undo_and_history[where store = ?s1 and acts = ?acts and rest = ?rest and ?ga0.0 = ?ga0] a2
  have "undo ?s1 = (True, ?s1\<lparr>state := last (history ?s1),
           history := butlast (history ?s1),
           delivered := delivered ?s1 @ map (\<lambda>listener. (listener,
              \<lparr>ev_action = UNDO, previousState = state ?s1,
               newState = last (history ?s1)\<rparr>)) (listeners ?s1)\<rparr>)" by blast
  then have u1: "fst (undo ?s1) = True \<and> state (snd (undo ?s1)) = createInitialState"
    by (simp add: storeOf_def)
  have a3: "length ?acts \<le> 50 \<and> (\<forall>ga\<in>set ?acts. actionType (snd ga) \<noteq> ''UNDO'')" by simp
  with c5 obtain store' where
    d: "dispatchAll ?acts newAppState = Some store'"
    and f: "fst (undoN (length ?acts) store') = replicate (length ?acts) True"
    and s: "state (snd (undoN (length ?acts) store')) = state newAppState" by blast
  have ev: "dispatchAll ?acts newAppState
     = Some \<lparr>state = closedBoundary [\<lparr>p_x = 1, p_y = 2, p_id = ''g''\<rparr>] None, listeners = [],
             history = [createInitialState, openBoundary [\<lparr>p_x = 1, p_y = 2, p_id = ''g''\<rparr>] None],
             delivered = []\<rparr>"
    by (simp add: newAppState_def dispatch_def deepClone_def pushHistory_def maxHistory_def
        notify_def Let_def createInitialState_def openBoundary_def closedBoundary_def)
  with d have st': "state store' = closedBoundary [\<lparr>p_x = 1, p_y = 2, p_id = ''g''\<rparr>] None" by simp
  have k3: "\<exists>store'. dispatchAll ?acts newAppState = Some store'
         \<and> state store' = closedBoundary [\<lparr>p_x = 1, p_y = 2, p_id = ''g''\<rparr>] None
         \<and> fst (undoN 2 store') = [True, True]
         \<and> state (snd (undoN 2 store')) = state newAppState"
    using d st' f s by (simp add: numeral_2_eq_2)
  have a4: "length (history newAppState) \<le> 50 \<and> length ?rest = 50
        \<and> (\<forall>ga\<in>set (?ga0 # ?rest). actionType (snd ga) \<noteq> ''UNDO'')"
    by (simp add: newAppState_def)
  with c5 obtain store1 store2 where
    d1: "dispatch (fst ?ga0) (snd ?ga0) newAppState = Some store1"
    and d2: "dispatchAll (?ga0 # ?rest) newAppState = Some store2"
    and l2: "length (history store2) = 50"
    and s2: "state (snd (undoN 50 store2)) = state store1"
    and u2: "undo (snd (undoN 50 store2)) = (False, snd (undoN 50 store2))" by blast
  have "dispatch ''g'' (ADD_POINT 1 2) newAppState
      = Some (newAppState\<lparr>state := openBoundary [\<lparr>p_x = 1, p_y = 2, p_id = ''g''\<rparr>] None,
                history := [createInitialState]\<rparr>)"
    by (simp add: newAppState_def dispatch_def deepClone_def pushHistory_def maxHistory_def
        notify_def Let_def createInitialState_def openBoundary_def)
  with d1 have s1: "state store1 = openBoundary [\<lparr>p_x = 1, p_y = 2, p_id = ''g''\<rparr>] None" by auto
  have k4: "\<exists>store1 store'. dispatch ''g'' (ADD_POINT 1 2) newAppState = Some store1
         \<and> state store1 = openBoundary [\<lparr>p_x = 1, p_y = 2, p_id = ''g''\<rparr>] None
         \<and> dispatchAll ((''g'', ADD_POINT 1 2) # replicate 50 ([], CLOSE_COASTLINE)) newAppState
             = Some store'
         \<and> length (history store') = 50
         \<and> state (snd (undoN 50 store')) = state store1
         \<and> undo (snd (undoN 50 store')) = (False, snd (undoN 50 store'))"
    using d1 s1 d2 l2 s2 u2 by auto
  show ?thesis using a1 u0 a2 u1 k3 k4 by simp
qed

text \<open>
  Claim C10: every dispatch whose action type is not \<^verbatim>\<open>UNDO\<close> pushes exactly one copy of
  the state before the action onto the history (dropping the oldest entry when 50 are
  held), also when the reducer returns a state equal to its input, as it does for a type
  that is no case label, for \<^verbatim>\<open>CANCEL_EDIT\<close> with no pending edit and for \<^verbatim>\<open>MOVE_POINT\<close>
  with an id that no vertex carries; an undo right after such a dispatch returns true and
  restores a state equal to the current one.
\<close>

theorem C10_dispatch_pushes_snapshot:
  assumes "actionType a \<noteq> ''UNDO''"
  shows "\<exists>nxt store'. reduce gid (state store) a = Some nxt
     \<and> dispatch gid a store = Some store'
     \<and> state store' = nxt
     \<and> history store' = (if length (history store) < 50 then history store @ [state store]
                          else tl (history store) @ [state store])
     \<and> (nxt = state store \<longrightarrow>
          fst (undo store') = True \<and> state (snd (undo store')) = state store')
     \<and> (\<forall>t st. reduce gid st (OTHER t) = Some st)
     \<and> (\<forall>st. pendingEdit st = None \<longrightarrow> reduce gid st CANCEL_EDIT = Some st)
     \<and> (\<forall>st i x y. (\<forall>p\<in>set (points (coastline st)). p_id p \<noteq> i) \<longrightarrow>
           reduce gid st (MOVE_POINT i x y) = Some st)"
proof -
  from dispatch_pushes[OF assms, of gid store] obtain nxt store' where
    r: "reduce gid (state store) a = Some nxt"
    and d: "dispatch gid a store = Some store'"
    and s: "state store' = nxt"
    and h: "history store' = pushHistory (history store) (state store)" by force
  have h': "history store' = (if length (history store) < 50 then history store @ [state store]
                          else tl (history store) @ [state store])"
    using h by (simp add: pushHistory_eq maxHistory_def)
  then have ne: "history store' \<noteq> []" by (simp split: if_splits)
  have u: "fst (undo store') = True \<and> state (snd (undo store')) = state store"
    using undo_nonempty[OF ne] h' by (simp split: if_splits)
  have o: "\<forall>t st. reduce gid st (OTHER t) = Some st" by simp
  have c: "\<forall>st. pendingEdit st = None \<longrightarrow> reduce gid st CANCEL_EDIT = Some st"
    by (simp add: pendingEdit_None_idem)
  have m: "\<forall>st i x y. (\<forall>p\<in>set (points (coastline st)). p_id p \<noteq> i) \<longrightarrow>
           reduce gid st (MOVE_POINT i x y) = Some st"
    by (simp add: move_unknown_id coastline_points_idem)
  show ?thesis using r d s h' u o c m by auto
qed


text \<open>
  \<^verbatim>\<open>CANCEL_EDIT\<close> on a new store changes no field of the state and still pushes the
  state onto the history; the undo that follows returns true and restores an equal state.
\<close>

theorem C10_dispatch_pushes_snapshot_witness:
  "actionType CANCEL_EDIT \<noteq> ''UNDO''
   \<and> dispatch [] CANCEL_EDIT newAppState = Some (newAppState\<lparr>history := [createInitialState]\<rparr>)
   \<and> undo (newAppState\<lparr>history := [createInitialState]\<rparr>) = (True, newAppState)"
proof -
  have h: "actionType CANCEL_EDIT \<noteq> ''UNDO''" by simp
  from C10_dispatch_pushes_snapshot[OF h, of "[]" newAppState]
  obtain nxt store' where
    d: "dispatch [] CANCEL_EDIT newAppState = Some store'"
    and hs: "history store' = (if length (history newAppState) < 50
               then history newAppState @ [state newAppState]
               else tl (history newAppState) @ [state newAppState])"
    by blast
  have e: "dispatch [] CANCEL_EDIT newAppState = Some (newAppState\<lparr>history := [createInitialState]\<rparr>)"
    by (simp add: dispatch_def newAppState_def createInitialState_def deepClone_def
        pushHistory_def maxHistory_def notify_def Let_def)
  with d hs have "history (newAppState\<lparr>history := [createInitialState]\<rparr>) = [state newAppState]"
    by (simp add: newAppState_def)
  then have "undo (newAppState\<lparr>history := [createInitialState]\<rparr>) = (True, newAppState)"
    by (simp add: undo_def newAppState_def notify_def Let_def)
  with h e show ?thesis by simp
qed
end
